theory Spec2Isabelle
  imports Main "HOL-Library.Multiset"
begin

section \<open>The message store of \<open>app/src/flux/stores/message-store.ts\<close>\<close>

text \<open>
  The store keeps the message list of the focused thread, the map of expanded messages and a
  loading flag. It is driven by notifications (focus changes, database changes) and by the
  continuations of the database queries it launches. The model is a record of the store's
  fields; every handler and every continuation is a function from store to store. What the
  store does to the outside (notifying its observers, launching a query, asking for bodies
  and files) is appended to a log, in the order the code does it.
\<close>

subsection \<open>Data\<close>

text \<open>
  \<open>Message\<close>, with the fields the store reads. \<open>body\<close>, \<open>snippet\<close> and
  \<open>replyToHeaderMessageId\<close> may be null; \<open>isHidden\<close> is the result of the method
  \<open>isHidden()\<close> of the message class, which is not part of this file; \<open>folder_role\<close> is
  \<open>folder.role\<close> (a role that is null is any string outside the hidden names); \<open>date\<close> is
  the time value of the Date object in ms, \<open>None\<close> for an invalid Date, whose value is NaN
  (a Date outside the range of \<open>8.64e15\<close> ms either side of the epoch is invalid).
\<close>

record message =
  msg_id :: string
  threadId :: string
  body :: "string option"
  snippet :: "string option"
  headerMessageId :: string
  replyToHeaderMessageId :: "string option"
  date :: "int option"
  draft :: bool
  unread :: bool
  folder_role :: string
  files :: "string list"
  isHidden :: bool

record contact =
  email :: string

record thread =
  thread_id :: string
  subject :: string
  thread_unread :: bool
  participants :: "contact list"

record calendar =
  name :: string

datatype expansion = Explicit | Default

datatype change_type = Persist | Unpersist | OtherType

text \<open>A database change record: its \<open>objectClass\<close> with the objects of that class.\<close>

datatype change =
  MessageChange change_type "message list"
| ThreadChange change_type "thread list"
| OtherChange

datatype query = FindCalendars | FindThreads string | FindMessages string

datatype effect =
  Trigger
| SetTitle string
| Run query
| FetchBodies "string list"
| FetchFile string
| MarkAsReadTimer int string
| QueueMarkRead string
| Rejected

text \<open>
  The fields of \<open>_MessageStore\<close> (\<open>_items\<close> is \<open>p_items\<close>, and so on), then what the
  store reads from its collaborators: \<open>focused\<close> is \<open>FocusedContentStore.focused('thread')\<close>,
  \<open>viewing\<close> is \<open>FocusedPerspectiveStore.current().categoriesSharedRole()\<close>,
  \<open>markAsReadDelay\<close> the configuration value, \<open>arraySort\<close> the engine's
  \<open>Array.prototype.sort\<close>, which takes the comparator and the array. A pending focus timer
  is its deadline in ms.
\<close>

record store =
  p_showingHiddenItems :: bool
  p_items :: "message list"
  p_thread :: "thread option"
  p_itemsExpanded :: "string \<rightharpoonup> expansion"
  p_itemsLoading :: bool
  p_lastMarkedAsReadThreadId :: "string option"
  p_onFocusChangedTimer :: "nat option"
  ownEmailAddresses :: "string list"
  strangerEmailAddress :: string
  focused :: "thread option"
  viewing :: string
  markAsReadDelay :: int
  arraySort :: "(message \<Rightarrow> message \<Rightarrow> int) \<Rightarrow> message list \<Rightarrow> message list"
  effects :: "effect list"

definition FolderNamesHiddenByDefault :: "string list" where
  "FolderNamesHiddenByDefault = [''spam'', ''trash'']"

text \<open>JavaScript truthiness of a nullable string: neither null nor empty.\<close>

definition truthy :: "string option \<Rightarrow> bool" where
  "truthy v = (case v of None \<Rightarrow> False | Some t \<Rightarrow> t \<noteq> [])"

definition emit :: "effect \<Rightarrow> store \<Rightarrow> store" where
  "emit e s = s\<lparr>effects := effects s @ [e]\<rparr>"

definition trigger :: "store \<Rightarrow> store" where
  "trigger s = emit Trigger s"

subsection \<open>Public accessors\<close>

definition items :: "store \<Rightarrow> message list" where
  "items s =
     (if p_showingHiddenItems s then p_items s
      else
        let viewingHiddenCategory = (viewing s \<in> set FolderNamesHiddenByDefault) in
        filter (\<lambda>item.
            let inHidden = (folder_role item \<in> set FolderNamesHiddenByDefault) in
            if viewingHiddenCategory then (inHidden \<or> draft item) else \<not> inHidden)
          (p_items s))"

definition threadId_of :: "store \<Rightarrow> string option" where
  "threadId_of s = map_option thread_id (p_thread s)"

definition numberOfHiddenItems :: "store \<Rightarrow> int" where
  "numberOfHiddenItems s = int (length (p_items s)) - int (length (items s))"

definition setStoreDefaults :: "store \<Rightarrow> store" where
  "setStoreDefaults s =
     s\<lparr>p_items := [], p_itemsExpanded := Map.empty, p_itemsLoading := False,
       p_showingHiddenItems := False, p_thread := None\<rparr>"

subsection \<open>The re-threading sort\<close>

text \<open>
  \<open>_sortItemsForDisplay\<close>, first loop: \<open>index\<close> runs from \<open>items.length - 1\<close> down to 0.
  The first argument is \<open>index + 1\<close>, the number of positions still to visit; the loop only
  removes at the position it reads, so the read stays in range.
\<close>

definition splice_out :: "nat \<Rightarrow> 'a list \<Rightarrow> 'a list" where
  "splice_out index xs = take index xs @ drop (Suc index) xs"

definition splice_in :: "nat \<Rightarrow> 'a \<Rightarrow> 'a list \<Rightarrow> 'a list" where
  "splice_in index x xs = take index xs @ x # drop index xs"

fun isolateReplies :: "nat \<Rightarrow> message list \<Rightarrow> message list \<Rightarrow> message list \<times> message list" where
  "isolateReplies 0 its itemsInReplyTo = (its, itemsInReplyTo)"
| "isolateReplies (Suc index) its itemsInReplyTo =
     (let item = its ! index in
      if draft item \<and> truthy (replyToHeaderMessageId item)
      then isolateReplies index (splice_out index its) (itemsInReplyTo @ [item])
      else isolateReplies index its itemsInReplyTo)"

text \<open>
  Second loop, for one isolated draft: scan from \<open>index\<close> for the message it replies to and
  insert after it; at the end of the list, push.
\<close>

function reinsert :: "message \<Rightarrow> nat \<Rightarrow> message list \<Rightarrow> message list" where
  "reinsert item index its =
     (if index < length its then
        (if replyToHeaderMessageId item = Some (headerMessageId (its ! index))
         then splice_in (index + 1) item its
         else reinsert item (index + 1) its)
      else its @ [item])"
  by pat_completeness auto
termination
  by (relation "measure (\<lambda>(item, index, its). length its - index)") auto

declare reinsert.simps [simp del]

definition sortItemsForDisplay :: "message list \<Rightarrow> message list" where
  "sortItemsForDisplay its =
     (case isolateReplies (length its) its [] of
        (rest, itemsInReplyTo) \<Rightarrow> foldl (\<lambda>acc item. reinsert item 0 acc) rest itemsInReplyTo)"

text \<open>
  The same sort in the words of the specification: the drafts that carry a reply reference
  are taken out; each one, the later in the list first, goes right after the first message
  whose header id is its reference, or to the end when there is none.
\<close>

definition isReplyDraft :: "message \<Rightarrow> bool" where
  "isReplyDraft m = (draft m \<and> truthy (replyToHeaderMessageId m))"

fun insertAfterTarget :: "message \<Rightarrow> message list \<Rightarrow> message list" where
  "insertAfterTarget d [] = [d]"
| "insertAfterTarget d (x # xs) =
     (if replyToHeaderMessageId d = Some (headerMessageId x) then x # d # xs
      else x # insertAfterTarget d xs)"

definition rethread_spec :: "message list \<Rightarrow> message list" where
  "rethread_spec its =
     foldl (\<lambda>acc d. insertAfterTarget d acc)
       (filter (\<lambda>m. \<not> isReplyDraft m) its) (rev (filter isReplyDraft its))"

subsection \<open>Expansion defaults\<close>

text \<open>
  \<open>_expandItemsToDefault\<close>: \<open>lastDraftIdx\<close> is the index of the last draft of the visible
  list, -1 when it has none; then every visible message that is unread, or at that index, or
  last, gets the entry \<open>default\<close>. No entry is ever removed here.
\<close>

definition lastDraftIdx :: "message list \<Rightarrow> int" where
  "lastDraftIdx visibleItems =
     foldl (\<lambda>acc idx. if draft (visibleItems ! idx) then int idx else acc) (- 1)
       [0 ..< length visibleItems]"

definition expandItemsToDefault :: "store \<Rightarrow> store" where
  "expandItemsToDefault s =
     (let visibleItems = items s; lastDraft = lastDraftIdx visibleItems in
      s\<lparr>p_itemsExpanded :=
          foldl (\<lambda>ex idx.
              let item = visibleItems ! idx in
              if unread item \<or> int idx = lastDraft \<or> int idx = int (length visibleItems) - 1
              then ex(msg_id item \<mapsto> Default) else ex)
            (p_itemsExpanded s) [0 ..< length visibleItems]\<rparr>)"

subsection \<open>Background requests and the read marker\<close>

definition fetchMissingBodies :: "message list \<Rightarrow> store \<Rightarrow> store" where
  "fetchMissingBodies its s =
     (let missing = filter (\<lambda>i. body i = None) its in
      if length missing > 0 then emit (FetchBodies (map msg_id missing)) s else s)"

definition fetchExpandedAttachments :: "message list \<Rightarrow> store \<Rightarrow> store" where
  "fetchExpandedAttachments its s =
     foldl (\<lambda>acc item.
         if p_itemsExpanded acc (msg_id item) = None then acc
         else foldl (\<lambda>acc' file. emit (FetchFile file) acc') acc (files item))
       s its"

text \<open>
  \<open>_markAsRead\<close> arms a timer (logged with its delay and the thread id it closes over);
  \<open>markAsReadTimerFired\<close> is the timer's callback, which checks the thread again.
\<close>

definition markAsRead :: "store \<Rightarrow> store" where
  "markAsRead s =
     (case p_thread s of
        None \<Rightarrow> s
      | Some t \<Rightarrow>
          if p_lastMarkedAsReadThreadId s = Some (thread_id t) then s
          else
            let s1 = s\<lparr>p_lastMarkedAsReadThreadId := Some (thread_id t)\<rparr> in
            if thread_unread t then
              (if markAsReadDelay s1 < 0 then s1
               else emit (MarkAsReadTimer (markAsReadDelay s1) (thread_id t)) s1)
            else s1)"

definition markAsReadTimerFired :: "string \<Rightarrow> store \<Rightarrow> store" where
  "markAsReadTimerFired markAsReadId s =
     (case p_thread s of
        None \<Rightarrow> s
      | Some t \<Rightarrow>
          if markAsReadId \<noteq> thread_id t then s
          else if thread_unread t then emit (QueueMarkRead (thread_id t)) s
          else s)"

subsection \<open>The fetch\<close>

text \<open>
  The fetch has three stages, each the continuation of a query: \<open>_fetchFromCache\<close> asks
  for the calendars; \<open>fetchFromCache_then\<close> is its continuation, which works out the
  address of the other party from the thread that is current when it runs and calls
  \<open>fetchThreads\<close>; \<open>_fetchFromCachePart2\<close> is the continuation of that search and asks
  for the messages of every thread found, one query each; \<open>fetchFromCachePart2_then\<close> is
  the continuation of one such query. No continuation compares the thread it was launched
  for with the current one. \<open>Run q\<close> in the log is a query launched with a continuation
  pending (\<open>_fetchFromCache\<close> also runs the calendar query once without one, which the
  store never hears of).
\<close>

definition fetchFromCache :: "store \<Rightarrow> store" where
  "fetchFromCache s = (case p_thread s of None \<Rightarrow> s | Some t \<Rightarrow> emit (Run FindCalendars) s)"

definition fetchThreads :: "store \<Rightarrow> store" where
  "fetchThreads s =
     (let email = strangerEmailAddress s in
      if email = [] then s else emit (Run (FindThreads email)) s)"

text \<open>
  With no thread, reading \<open>self._thread.participants\<close> throws inside the continuation:
  the promise is rejected and the rest of the continuation does not run.
\<close>

definition fetchFromCache_then :: "calendar list \<Rightarrow> store \<Rightarrow> store" where
  "fetchFromCache_then ownEmailCalendars s =
     (let s1 = s\<lparr>ownEmailAddresses := map name ownEmailCalendars\<rparr> in
      case p_thread s1 of
        None \<Rightarrow> emit Rejected s1
      | Some t \<Rightarrow>
          fetchThreads
            (foldl (\<lambda>acc value.
                let isStrangerEmail =
                  foldl (\<lambda>b ownValue. if email value = ownValue then False else b) True
                    (ownEmailAddresses acc)
                in if isStrangerEmail then acc\<lparr>strangerEmailAddress := email value\<rparr> else acc)
              s1 (participants t)))"

definition fetchFromCachePart2 :: "thread list \<Rightarrow> store \<Rightarrow> store" where
  "fetchFromCachePart2 threads s =
     foldl (\<lambda>acc t. emit (Run (FindMessages (thread_id t))) acc) s threads"

definition withBody :: "message \<Rightarrow> message" where
  "withBody m =
     (if truthy (body m) then m
      else
        (case snippet m of
           None \<Rightarrow> m\<lparr>body := Some ''MESSAGE TOO OLD''\<rparr>
         | Some t \<Rightarrow>
             if t \<noteq> [] then m\<lparr>body := Some (''SNIPPET: '' @ t)\<rparr>
             else m\<lparr>body := Some ''MESSAGE TOO OLD''\<rparr>))"

text \<open>
  The continuation of one message query. \<open>messagesToList\<close> is the array the queries of one
  \<open>_fetchFromCachePart2\<close> call share: the continuation takes what the earlier ones have
  pushed and returns it with its own messages pushed.

  \<open>byDate\<close> is the comparator of the last sort, \<open>a.date > b.date ? 1 : -1\<close>; a comparison
  with NaN is false. It never returns 0, so it is not a consistent comparator, and the
  order \<open>Array.prototype.sort\<close> leaves is up to the engine: the sort is the store's
  \<open>arraySort\<close>, of which the general statements below assume at most that it returns a
  permutation of the array.
\<close>

definition dateGreater :: "message \<Rightarrow> message \<Rightarrow> bool" where
  "dateGreater a b =
     (case date a of
        None \<Rightarrow> False
      | Some x \<Rightarrow> (case date b of None \<Rightarrow> False | Some y \<Rightarrow> y < x))"

definition byDate :: "message \<Rightarrow> message \<Rightarrow> int" where
  "byDate a b = (if dateGreater a b then 1 else - 1)"

definition fetchFromCachePart2_then ::
  "message list \<Rightarrow> message list \<Rightarrow> store \<Rightarrow> message list \<times> store" where
  "fetchFromCachePart2_then messagesToList its s =
     (let messagesToList' = messagesToList @ map withBody its;
          s1 = s\<lparr>p_items := filter (\<lambda>m. \<not> isHidden m) messagesToList'\<rparr>;
          s2 = s1\<lparr>p_items := sortItemsForDisplay (p_items s1)\<rparr>;
          s3 = s2\<lparr>p_items := arraySort s2 byDate (p_items s2)\<rparr>;
          s4 = expandItemsToDefault s3;
          s5 = (if p_itemsLoading s4 then fetchMissingBodies (p_items s4) s4 else s4);
          s6 = fetchExpandedAttachments (p_items s5) s5;
          s7 = s6\<lparr>p_itemsLoading := False\<rparr>;
          s8 = markAsRead s7
      in (messagesToList', trigger s8))"

text \<open>
  One whole cycle with nothing in between: the search returns \<open>threads\<close>, and the message
  queries resolve one after the other with \<open>results\<close>, each continuation taking the shared
  array from the one before.
\<close>

fun resolveAll :: "message list \<times> store \<Rightarrow> message list list \<Rightarrow> message list \<times> store" where
  "resolveAll (messagesToList, s) [] = (messagesToList, s)"
| "resolveAll (messagesToList, s) (its # rest) =
     resolveAll (fetchFromCachePart2_then messagesToList its s) rest"

definition fetchCycle :: "thread list \<Rightarrow> message list list \<Rightarrow> store \<Rightarrow> store" where
  "fetchCycle threads results s = snd (resolveAll ([], fetchFromCachePart2 threads s) results)"

subsection \<open>Database changes\<close>

fun findIndex :: "('a \<Rightarrow> bool) \<Rightarrow> 'a list \<Rightarrow> int" where
  "findIndex P [] = - 1"
| "findIndex P (x # xs) =
     (if P x then 0 else (let i = findIndex P xs in if i = - 1 then - 1 else i + 1))"

definition onDataChanged :: "change \<Rightarrow> store \<Rightarrow> store" where
  "onDataChanged chg s =
     (case p_thread s of
        None \<Rightarrow> s
      | Some t \<Rightarrow>
          (case chg of
             MessageChange ty objects \<Rightarrow>
               if \<not> list_ex (\<lambda>obj. threadId obj = thread_id t) objects then s
               else if length objects = 1 \<and> draft (hd objects) then
                 (let item = hd objects;
                      itemIndex = findIndex (\<lambda>msg. msg_id msg = msg_id item) (p_items s) in
                  if ty = Persist \<and> itemIndex = - 1 then
                    (let s1 = s\<lparr>p_items := filter (\<lambda>m. \<not> isHidden m) (p_items s @ [item])\<rparr>;
                         s2 = s1\<lparr>p_items := sortItemsForDisplay (p_items s1)\<rparr>
                     in trigger (expandItemsToDefault s2))
                  else if ty = Unpersist \<and> itemIndex \<noteq> - 1 then
                    (let s1 = s\<lparr>p_items := filter (\<lambda>m. \<not> isHidden m) (p_items s)\<rparr>;
                         s2 = s1\<lparr>p_items := splice_out (nat itemIndex) (p_items s1)\<rparr>
                     in trigger (expandItemsToDefault s2))
                  else fetchFromCache s)
               else fetchFromCache s
           | ThreadChange ty objects \<Rightarrow>
               (case find (\<lambda>u. thread_id u = thread_id t) objects of
                  None \<Rightarrow> s
                | Some updatedThread \<Rightarrow> fetchFromCache (s\<lparr>p_thread := Some updatedThread\<rparr>))
           | OtherChange \<Rightarrow> s))"

subsection \<open>Focus changes\<close>

text \<open>The title is \<open>Mailspring\<close>, then a middle dot (two bytes in UTF-8) and the subject.\<close>

definition setWindowTitle :: "store \<Rightarrow> store" where
  "setWindowTitle s =
     emit (SetTitle (''Mailspring'' @
       (case p_thread s of
          None \<Rightarrow> []
        | Some t \<Rightarrow> '' '' @ [CHR 0xC2, CHR 0xB7] @ '' '' @ subject t))) s"

definition onApplyFocusChange :: "store \<Rightarrow> store" where
  "onApplyFocusChange s =
     (let s1 = (if focused s = None then s\<lparr>p_lastMarkedAsReadThreadId := None\<rparr> else s) in
      if threadId_of s1 = map_option thread_id (focused s1) then s1
      else
        fetchFromCache (setWindowTitle (trigger
          (s1\<lparr>p_thread := focused s1, p_items := [], p_itemsLoading := True,
              p_showingHiddenItems := False, p_itemsExpanded := Map.empty\<rparr>))))"

text \<open>
  \<open>_onFocusChanged\<close> at time \<open>now\<close> (ms): with no timer pending the change is applied at
  once; in both cases a timer is armed for \<open>now + 100\<close>, replacing the pending one.
  \<open>focusTimerFired\<close> is the timer's callback.
\<close>

definition onFocusChanged :: "bool \<Rightarrow> nat \<Rightarrow> store \<Rightarrow> store" where
  "onFocusChanged impactsThread now s =
     (if \<not> impactsThread then s
      else
        let s1 = (case p_onFocusChangedTimer s of None \<Rightarrow> onApplyFocusChange s | Some due \<Rightarrow> s)
        in s1\<lparr>p_onFocusChangedTimer := Some (now + 100)\<rparr>)"

definition focusTimerFired :: "store \<Rightarrow> store" where
  "focusTimerFired s = onApplyFocusChange (s\<lparr>p_onFocusChangedTimer := None\<rparr>)"

text \<open>
  The event loop, as far as the focus timer goes: \<open>advance now\<close> runs the timer's callback
  when its deadline has come; \<open>focusEvent now f\<close> is the focus store moving to \<open>f\<close> at time
  \<open>now\<close> and notifying the message store.
\<close>

definition advance :: "nat \<Rightarrow> store \<Rightarrow> store" where
  "advance now s =
     (case p_onFocusChangedTimer s of
        None \<Rightarrow> s
      | Some due \<Rightarrow> if due \<le> now then focusTimerFired s else s)"

definition focusEvent :: "nat \<Rightarrow> thread option \<Rightarrow> store \<Rightarrow> store" where
  "focusEvent now f s = onFocusChanged True now ((advance now s)\<lparr>focused := f\<rparr>)"

subsection \<open>Notions used in the statements\<close>

text \<open>
  The requests \<open>_fetchExpandedAttachments\<close> makes: the files of every message that has an
  entry in the expansion map, in list order.
\<close>

definition attachmentRequests :: "(string \<rightharpoonup> expansion) \<Rightarrow> message list \<Rightarrow> effect list" where
  "attachmentRequests ex its =
     concat (map (\<lambda>item. if ex (msg_id item) = None then [] else map FetchFile (files item)) its)"

text \<open>
  The default-expansion rule in the words of the specification: the message at position
  \<open>i\<close> of the visible list is unread, or it is the last draft, or it is the last message.
\<close>

definition isLastDraft :: "message list \<Rightarrow> nat \<Rightarrow> bool" where
  "isLastDraft vs i = (draft (vs ! i) \<and> \<not> list_ex draft (drop (Suc i) vs))"

definition defaultExpanded :: "message list \<Rightarrow> nat \<Rightarrow> bool" where
  "defaultExpanded vs i = (unread (vs ! i) \<or> isLastDraft vs i \<or> Suc i = length vs)"

text \<open>How often the observers have been notified, and how often an id occurs in a list.\<close>

definition notifications :: "store \<Rightarrow> nat" where
  "notifications s = length (filter (\<lambda>e. e = Trigger) (effects s))"

definition occurrences :: "string \<Rightarrow> message list \<Rightarrow> nat" where
  "occurrences i its = length (filter (\<lambda>m. msg_id m = i) its)"

subsection \<open>Concrete stores, threads and messages for the examples\<close>

text \<open>
  The engine of the examples: \<open>Array.prototype.sort\<close> of V8 (TimSort) on an array of fewer
  than 64 elements, where the minimal run length is the length of the array. The first
  run is counted, comparing each element with the one before it, and reversed when it is
  descending (\<open>CountAndMakeRun\<close>); the elements after it are put in one by one at the
  place a binary search finds (\<open>BinaryInsertionSort\<close>; the search reads below
  \<open>right\<close>, which is at most the length of the part already in order). On a longer array V8 merges
  several runs, which is not modelled: the examples are short.
\<close>

fun runTail :: "('a \<Rightarrow> 'a \<Rightarrow> int) \<Rightarrow> bool \<Rightarrow> 'a \<Rightarrow> 'a list \<Rightarrow> nat" where
  "runTail cmp isDescending previousElement [] = 0"
| "runTail cmp isDescending previousElement (currentElement # rest) =
     (let order = cmp currentElement previousElement in
      if (if isDescending then 0 \<le> order else order < 0) then 0
      else Suc (runTail cmp isDescending currentElement rest))"

function binarySearch :: "('a \<Rightarrow> 'a \<Rightarrow> int) \<Rightarrow> 'a \<Rightarrow> 'a list \<Rightarrow> nat \<Rightarrow> nat \<Rightarrow> nat" where
  "binarySearch cmp pivot a left right =
     (if left < right then
        (let mid = left + (right - left) div 2 in
         if cmp pivot (a ! mid) < 0 then binarySearch cmp pivot a left mid
         else binarySearch cmp pivot a (mid + 1) right)
      else left)"
  by pat_completeness auto
termination
  by (relation "measure (\<lambda>(cmp, pivot, a, left, right). right - left)") auto

declare binarySearch.simps [simp del]

fun binaryInsertion :: "('a \<Rightarrow> 'a \<Rightarrow> int) \<Rightarrow> 'a list \<Rightarrow> 'a list \<Rightarrow> 'a list" where
  "binaryInsertion cmp placed [] = placed"
| "binaryInsertion cmp placed (pivot # rest) =
     (let left = binarySearch cmp pivot placed 0 (length placed) in
      binaryInsertion cmp (take left placed @ pivot # drop left placed) rest)"

definition timSortShort :: "('a \<Rightarrow> 'a \<Rightarrow> int) \<Rightarrow> 'a list \<Rightarrow> 'a list" where
  "timSortShort cmp a =
     (case a of
        x0 # x1 # rest \<Rightarrow>
          (let isDescending = (cmp x1 x0 < 0);
               runLength = 2 + runTail cmp isDescending x1 rest;
               run = (if isDescending then rev (take runLength a) else take runLength a)
           in binaryInsertion cmp run (drop runLength a))
      | _ \<Rightarrow> a)"

text \<open>
  The store as the constructor leaves it, in an environment where the perspective is
  \<open>v\<close>, the configured delay is \<open>d\<close> and the engine is the one above.
\<close>

definition newStore :: "string \<Rightarrow> int \<Rightarrow> store" where
  "newStore v d =
     \<lparr>p_showingHiddenItems = False, p_items = [], p_thread = None,
      p_itemsExpanded = Map.empty, p_itemsLoading = False,
      p_lastMarkedAsReadThreadId = None, p_onFocusChangedTimer = None,
      ownEmailAddresses = [], strangerEmailAddress = [],
      focused = None, viewing = v, markAsReadDelay = d,
      arraySort = timSortShort, effects = []\<rparr>"

definition mkThread :: "string \<Rightarrow> string \<Rightarrow> thread" where
  "mkThread i other =
     \<lparr>thread_id = i, subject = i, thread_unread = False,
      participants = [\<lparr>email = ''me@example.com''\<rparr>, \<lparr>email = other\<rparr>]\<rparr>"

definition mkMessage :: "string \<Rightarrow> string \<Rightarrow> int \<Rightarrow> message" where
  "mkMessage i t d =
     \<lparr>msg_id = i, threadId = t, body = Some ''text'', snippet = None,
      headerMessageId = ''h-'' @ i, replyToHeaderMessageId = None, date = Some d,
      draft = False, unread = False, folder_role = ''inbox'', files = [], isHidden = False\<rparr>"

definition mkDraft :: "string \<Rightarrow> string \<Rightarrow> int \<Rightarrow> string option \<Rightarrow> message" where
  "mkDraft i t d r = (mkMessage i t d)\<lparr>draft := True, replyToHeaderMessageId := r\<rparr>"

definition threadA :: thread where
  "threadA = mkThread ''A'' ''alice@example.com''"

definition threadB :: thread where
  "threadB = mkThread ''B'' ''bob@example.com''"

definition threadC :: thread where
  "threadC = mkThread ''C'' ''carol@example.com''"

text \<open>Thread A focused in a fresh store, its calendar query resolved.\<close>

definition focusedA :: store where
  "focusedA =
     fetchFromCache_then [\<lparr>name = ''me@example.com''\<rparr>]
       (focusEvent 0 (Some threadA) (newStore ''inbox'' 500))"

text \<open>Two messages of thread A, a draft in reply to the first, and a draft with no reference.\<close>

definition msg1 :: message where
  "msg1 = mkMessage ''m1'' ''A'' 1"

definition msg2 :: message where
  "msg2 = mkMessage ''m2'' ''A'' 2"

definition reply1 :: message where
  "reply1 = mkDraft ''d1'' ''A'' 3 (Some ''h-m1'')"

definition draftX :: message where
  "draftX = mkDraft ''x'' ''A'' 4 None"

text \<open>An unread message, and thread A loaded with one message, then with a draft persisted.\<close>

definition unread0 :: message where
  "unread0 = (mkMessage ''u'' ''A'' 0)\<lparr>unread := True\<rparr>"

definition loaded1 :: store where
  "loaded1 = fetchCycle [threadA] [[msg1]] focusedA"

definition loaded1_persisted :: store where
  "loaded1_persisted = onDataChanged (MessageChange Persist [draftX]) loaded1"

text \<open>Thread A loaded with a message and a draft, then the draft unpersisted.\<close>

definition loaded2 :: store where
  "loaded2 = fetchCycle [threadA] [[msg1, draftX]] focusedA"

definition loaded2_unpersisted :: store where
  "loaded2_unpersisted = onDataChanged (MessageChange Unpersist [draftX]) loaded2"

text \<open>Thread A loaded with two messages, a reply draft and a second draft.\<close>

definition loaded4 :: store where
  "loaded4 = fetchCycle [threadA] [[msg1, msg2, reply1, draftX]] focusedA"

text \<open>A visible list [U, R, L]: U unread, R and L read, with an empty expansion map.\<close>

definition storeURL :: store where
  "storeURL = (newStore ''inbox'' 500)\<lparr>p_items := [unread0, msg1, msg2]\<rparr>"

text \<open>Two messages without a body, the second with a snippet; a message in the spam folder.\<close>

definition bare1 :: message where
  "bare1 = (mkMessage ''n1'' ''A'' 5)\<lparr>body := None\<rparr>"

definition bare2 :: message where
  "bare2 = (mkMessage ''n2'' ''A'' 6)\<lparr>body := None, snippet := Some ''hello''\<rparr>"

definition spam1 :: message where
  "spam1 = (mkMessage ''s1'' ''A'' 1)\<lparr>folder_role := ''spam''\<rparr>"

definition storeSpam :: "bool \<Rightarrow> store" where
  "storeSpam showing =
     (newStore ''inbox'' 500)\<lparr>p_items := [msg1, spam1], p_showingHiddenItems := showing\<rparr>"

text \<open>
  Thread B is focused while the search launched for thread A is pending; then the search
  resolves with thread A and its message query with \<open>msg1\<close>. \<open>staleNull\<close> is the same
  with the focus cleared instead.
\<close>

definition refocusedB :: store where
  "refocusedB = focusEvent 500 (Some threadB) focusedA"

definition staleA :: store where
  "staleA = snd (fetchFromCachePart2_then [] [msg1] (fetchFromCachePart2 [threadA] refocusedB))"

definition staleNull :: store where
  "staleNull =
     snd (fetchFromCachePart2_then [] [msg1]
       (fetchFromCachePart2 [threadA] (focusEvent 500 None focusedA)))"

text \<open>A message of thread B, and a search that finds both threads.\<close>

definition msgB1 :: message where
  "msgB1 = mkMessage ''b1'' ''B'' 5"

definition loadedFirst :: store where
  "loadedFirst = fetchCycle [threadA, threadB] [[msg1]] focusedA"

definition loadedBoth :: store where
  "loadedBoth = fetchCycle [threadA, threadB] [[msg1], [msgB1]] focusedA"

text \<open>
  Three focus changes, 50 ms apart, in a fresh store; and the same after a first change to
  thread A, with thread A again as the last target.
\<close>

definition burst :: store where
  "burst =
     focusEvent 100 (Some threadC) (focusEvent 50 (Some threadB)
       (focusEvent 0 (Some threadA) (newStore ''inbox'' 500)))"

definition burstBack :: store where
  "burstBack =
     focusEvent 150 (Some threadA) (focusEvent 100 (Some threadC) (focusEvent 50 (Some threadB)
       (focusEvent 0 (Some threadA) (newStore ''inbox'' 500))))"

section \<open>The re-threading sort does what the specification says\<close>

lemma isolateReplies_eq:
  "n \<le> length its \<Longrightarrow>
   isolateReplies n its acc =
     (filter (\<lambda>m. \<not> isReplyDraft m) (take n its) @ drop n its,
      acc @ rev (filter isReplyDraft (take n its)))"
proof (induction n arbitrary: its acc)
  case 0
  then show ?case by simp
next
  case (Suc n)
  then have n: "n < length its" by simp
  have tk: "take (Suc n) its = take n its @ [its ! n]"
    using n by (simp add: take_Suc_conv_app_nth)
  have dr: "drop n its = its ! n # drop (Suc n) its"
    using n by (simp add: Cons_nth_drop_Suc)
  have step: "isolateReplies (Suc n) its acc =
      (if isReplyDraft (its ! n) then isolateReplies n (splice_out n its) (acc @ [its ! n])
       else isolateReplies n its acc)"
    by (simp add: isReplyDraft_def Let_def)
  show ?case
  proof (cases "isReplyDraft (its ! n)")
    case True
    have len: "n \<le> length (splice_out n its)" using n by (simp add: splice_out_def)
    have t2: "take n (splice_out n its) = take n its" using n by (simp add: splice_out_def)
    have d2: "drop n (splice_out n its) = drop (Suc n) its" using n by (simp add: splice_out_def)
    show ?thesis
      unfolding step using True Suc.IH[OF len] by (simp add: t2 d2 tk)
  next
    case False
    have len: "n \<le> length its" using n by simp
    show ?thesis
      unfolding step using False Suc.IH[OF len] by (simp add: tk dr)
  qed
qed

lemma reinsert_eq:
  "index \<le> length its \<Longrightarrow>
   reinsert item index its = take index its @ insertAfterTarget item (drop index its)"
proof (induction item index its rule: reinsert.induct)
  case (1 item index its)
  show ?case
  proof (cases "index < length its")
    case True
    then have dr: "drop index its = its ! index # drop (Suc index) its"
      by (simp add: Cons_nth_drop_Suc)
    have tk: "take (Suc index) its = take index its @ [its ! index]"
      using True by (simp add: take_Suc_conv_app_nth)
    show ?thesis
    proof (cases "replyToHeaderMessageId item = Some (headerMessageId (its ! index))")
      case t: True
      then show ?thesis using True
        by (subst reinsert.simps) (simp add: splice_in_def dr tk)
    next
      case f: False
      have "reinsert item index its = reinsert item (index + 1) its"
        using True f by (subst reinsert.simps) simp
      also have "\<dots> = take (index + 1) its @ insertAfterTarget item (drop (index + 1) its)"
        using "1.IH"[OF True f] True by simp
      finally show ?thesis using f by (simp add: dr tk)
    qed
  next
    case False
    with 1 show ?thesis by (subst reinsert.simps) simp
  qed
qed

lemma sortItemsForDisplay_eq: "sortItemsForDisplay its = rethread_spec its"
  by (simp add: sortItemsForDisplay_def rethread_spec_def isolateReplies_eq reinsert_eq)

subsection \<open>What the helpers leave alone\<close>

lemma emit_fields [simp]:
  "p_items (emit e s) = p_items s"
  "p_itemsExpanded (emit e s) = p_itemsExpanded s"
  "p_thread (emit e s) = p_thread s"
  "p_itemsLoading (emit e s) = p_itemsLoading s"
  "p_showingHiddenItems (emit e s) = p_showingHiddenItems s"
  "p_onFocusChangedTimer (emit e s) = p_onFocusChangedTimer s"
  "p_lastMarkedAsReadThreadId (emit e s) = p_lastMarkedAsReadThreadId s"
  "viewing (emit e s) = viewing s"
  "focused (emit e s) = focused s"
  "markAsReadDelay (emit e s) = markAsReadDelay s"
  "arraySort (emit e s) = arraySort s"
  "effects (emit e s) = effects s @ [e]"
  by (simp_all add: emit_def)

lemma emit_files: "foldl (\<lambda>acc' file. emit (FetchFile file) acc') s fs = s\<lparr>effects := effects s @ map FetchFile fs\<rparr>"
  by (induction fs arbitrary: s) (simp_all add: emit_def)

lemma fetchExpandedAttachments_eq:
  "fetchExpandedAttachments its s = s\<lparr>effects := effects s @ attachmentRequests (p_itemsExpanded s) its\<rparr>"
  unfolding fetchExpandedAttachments_def
proof (induction its arbitrary: s)
  case Nil
  then show ?case by (simp add: attachmentRequests_def)
next
  case (Cons a its)
  show ?case
    by (simp add: Cons.IH emit_files attachmentRequests_def)
qed

lemma fetchMissingBodies_eq:
  "fetchMissingBodies its s =
     s\<lparr>effects := effects s @
        (if filter (\<lambda>i. body i = None) its = [] then []
         else [FetchBodies (map msg_id (filter (\<lambda>i. body i = None) its))])\<rparr>"
  by (simp add: fetchMissingBodies_def emit_def Let_def)

lemma markAsRead_fields [simp]:
  "p_items (markAsRead s) = p_items s"
  "p_itemsExpanded (markAsRead s) = p_itemsExpanded s"
  "p_thread (markAsRead s) = p_thread s"
  "p_onFocusChangedTimer (markAsRead s) = p_onFocusChangedTimer s"
  "arraySort (markAsRead s) = arraySort s"
  by (simp_all add: markAsRead_def Let_def split: option.splits)

lemma markAsRead_no_trigger:
  "filter (\<lambda>e. e = Trigger) (effects (markAsRead s)) = filter (\<lambda>e. e = Trigger) (effects s)"
  by (simp add: markAsRead_def Let_def split: option.splits)

lemma expandItemsToDefault_fields [simp]:
  "p_items (expandItemsToDefault s) = p_items s"
  "p_thread (expandItemsToDefault s) = p_thread s"
  "p_itemsLoading (expandItemsToDefault s) = p_itemsLoading s"
  "p_onFocusChangedTimer (expandItemsToDefault s) = p_onFocusChangedTimer s"
  "arraySort (expandItemsToDefault s) = arraySort s"
  "effects (expandItemsToDefault s) = effects s"
  by (simp_all add: expandItemsToDefault_def Let_def)

lemma fetchFromCache_fields [simp]:
  "p_items (fetchFromCache s) = p_items s"
  "p_itemsExpanded (fetchFromCache s) = p_itemsExpanded s"
  "p_thread (fetchFromCache s) = p_thread s"
  "p_onFocusChangedTimer (fetchFromCache s) = p_onFocusChangedTimer s"
  by (simp_all add: fetchFromCache_def split: option.splits)

subsection \<open>The expansion loop\<close>

lemma expand_loop:
  "foldl (\<lambda>ex idx. if P idx then ex(f idx \<mapsto> Default) else ex) ex0 [0 ..< n] k =
     (if \<exists>idx < n. P idx \<and> f idx = k then Some Default else ex0 k)"
proof (induction n)
  case 0
  then show ?case by simp
next
  case (Suc n)
  then show ?case by (auto simp: less_Suc_eq)
qed

lemma lastDraft_loop:
  "(foldl (\<lambda>acc idx. if draft (vs ! idx) then int idx else acc) (- 1) [0 ..< n] = - 1
      \<and> (\<forall>j < n. \<not> draft (vs ! j)))
   \<or> (\<exists>i < n. foldl (\<lambda>acc idx. if draft (vs ! idx) then int idx else acc) (- 1) [0 ..< n] = int i
      \<and> draft (vs ! i) \<and> (\<forall>j. i < j \<and> j < n \<longrightarrow> \<not> draft (vs ! j)))"
proof (induction n)
  case 0
  then show ?case by simp
next
  case (Suc n)
  show ?case
  proof (cases "draft (vs ! n)")
    case True
    then show ?thesis by auto
  next
    case False
    from Suc show ?thesis
    proof
      assume "foldl (\<lambda>acc idx. if draft (vs ! idx) then int idx else acc) (- 1) [0 ..< n] = - 1
        \<and> (\<forall>j < n. \<not> draft (vs ! j))"
      then show ?thesis using False by (auto simp: less_Suc_eq)
    next
      assume "\<exists>i < n. foldl (\<lambda>acc idx. if draft (vs ! idx) then int idx else acc) (- 1) [0 ..< n] = int i
        \<and> draft (vs ! i) \<and> (\<forall>j. i < j \<and> j < n \<longrightarrow> \<not> draft (vs ! j))"
      then obtain i where "i < n"
        "foldl (\<lambda>acc idx. if draft (vs ! idx) then int idx else acc) (- 1) [0 ..< n] = int i"
        "draft (vs ! i)" "\<forall>j. i < j \<and> j < n \<longrightarrow> \<not> draft (vs ! j)" by blast
      then have "i < Suc n \<and>
        foldl (\<lambda>acc idx. if draft (vs ! idx) then int idx else acc) (- 1) [0 ..< Suc n] = int i
        \<and> draft (vs ! i) \<and> (\<forall>j. i < j \<and> j < Suc n \<longrightarrow> \<not> draft (vs ! j))"
        using False by (auto simp: less_Suc_eq)
      then show ?thesis by blast
    qed
  qed
qed

lemma list_ex_drop: "list_ex P (drop k vs) = (\<exists>j. k \<le> j \<and> j < length vs \<and> P (vs ! j))"
proof
  assume "list_ex P (drop k vs)"
  then obtain i where i: "i < length vs - k" "P (drop k vs ! i)"
    by (auto simp: list_ex_iff in_set_conv_nth)
  then have "k \<le> k + i \<and> k + i < length vs \<and> P (vs ! (k + i))" by simp
  then show "\<exists>j. k \<le> j \<and> j < length vs \<and> P (vs ! j)" by blast
next
  assume "\<exists>j. k \<le> j \<and> j < length vs \<and> P (vs ! j)"
  then obtain j where j: "k \<le> j" "j < length vs" "P (vs ! j)" by blast
  then have "j - k < length (drop k vs)" "drop k vs ! (j - k) = vs ! j" by simp_all
  then have "vs ! j \<in> set (drop k vs)" by (metis nth_mem)
  then show "list_ex P (drop k vs)" using j by (auto simp: list_ex_iff)
qed

lemma lastDraftIdx_iff:
  assumes "i < length vs"
  shows "(int i = lastDraftIdx vs) = isLastDraft vs i"
proof -
  from lastDraft_loop[of vs "length vs"]
  show ?thesis
  proof
    assume "foldl (\<lambda>acc idx. if draft (vs ! idx) then int idx else acc) (- 1) [0 ..< length vs] = - 1
      \<and> (\<forall>j < length vs. \<not> draft (vs ! j))"
    then show ?thesis using assms by (auto simp: lastDraftIdx_def isLastDraft_def)
  next
    assume "\<exists>i < length vs.
      foldl (\<lambda>acc idx. if draft (vs ! idx) then int idx else acc) (- 1) [0 ..< length vs] = int i
      \<and> draft (vs ! i) \<and> (\<forall>j. i < j \<and> j < length vs \<longrightarrow> \<not> draft (vs ! j))"
    then obtain g where g: "g < length vs" "lastDraftIdx vs = int g" "draft (vs ! g)"
      "\<forall>j. g < j \<and> j < length vs \<longrightarrow> \<not> draft (vs ! j)"
      unfolding lastDraftIdx_def by blast
    show ?thesis
    proof
      assume "int i = lastDraftIdx vs"
      then have "i = g" using g(2) by simp
      then show "isLastDraft vs i" using g by (auto simp: isLastDraft_def list_ex_drop)
    next
      assume a: "isLastDraft vs i"
      then have d: "draft (vs ! i)" and no: "\<forall>j. Suc i \<le> j \<and> j < length vs \<longrightarrow> \<not> draft (vs ! j)"
        by (auto simp: isLastDraft_def list_ex_drop)
      have "\<not> i < g" using no g(1,3) by auto
      moreover have "\<not> g < i" using g(4) d assms by auto
      ultimately show "int i = lastDraftIdx vs" using g(2) by simp
    qed
  qed
qed

lemma expandItemsToDefault_entry:
  "p_itemsExpanded (expandItemsToDefault s) k =
     (if \<exists>i < length (items s). defaultExpanded (items s) i \<and> msg_id (items s ! i) = k
      then Some Default else p_itemsExpanded s k)"
proof -
  have cond: "\<And>i. i < length (items s) \<Longrightarrow>
      (unread (items s ! i) \<or> int i = lastDraftIdx (items s) \<or> int i = int (length (items s)) - 1)
       = defaultExpanded (items s) i"
    using lastDraftIdx_iff by (auto simp: defaultExpanded_def)
  have "p_itemsExpanded (expandItemsToDefault s) k =
      foldl (\<lambda>ex idx. if unread (items s ! idx) \<or> int idx = lastDraftIdx (items s)
                 \<or> int idx = int (length (items s)) - 1
               then ex(msg_id (items s ! idx) \<mapsto> Default) else ex)
        (p_itemsExpanded s) [0 ..< length (items s)] k"
    by (simp add: expandItemsToDefault_def Let_def)
  also have "\<dots> = (if \<exists>i < length (items s).
        (unread (items s ! i) \<or> int i = lastDraftIdx (items s) \<or> int i = int (length (items s)) - 1)
         \<and> msg_id (items s ! i) = k
      then Some Default else p_itemsExpanded s k)"
    by (rule expand_loop)
  also have "\<dots> = (if \<exists>i < length (items s). defaultExpanded (items s) i \<and> msg_id (items s ! i) = k
      then Some Default else p_itemsExpanded s k)"
    using cond by (metis (no_types, lifting))
  finally show ?thesis .
qed

lemma set_items_subset: "set (items s) \<subseteq> set (p_items s)"
  by (auto simp: items_def Let_def)

lemma dom_expandItemsToDefault:
  "dom (p_itemsExpanded (expandItemsToDefault s)) \<subseteq> dom (p_itemsExpanded s) \<union> msg_id ` set (p_items s)"
proof
  fix k assume "k \<in> dom (p_itemsExpanded (expandItemsToDefault s))"
  then have "p_itemsExpanded (expandItemsToDefault s) k \<noteq> None" by auto
  then have "(\<exists>i < length (items s). msg_id (items s ! i) = k) \<or> p_itemsExpanded s k \<noteq> None"
    by (auto simp: expandItemsToDefault_entry split: if_splits)
  then show "k \<in> dom (p_itemsExpanded s) \<union> msg_id ` set (p_items s)"
    using set_items_subset[of s] by (auto simp: in_set_conv_nth) (metis nth_mem image_eqI subsetD)
qed

subsection \<open>The sort permutes\<close>

lemma mset_insertAfterTarget: "mset (insertAfterTarget d xs) = add_mset d (mset xs)"
  by (induction xs) simp_all

lemma mset_foldl_insertAfterTarget:
  "mset (foldl (\<lambda>acc d. insertAfterTarget d acc) rest ds) = mset rest + mset ds"
  by (induction ds arbitrary: rest) (simp_all add: mset_insertAfterTarget)

lemma mset_sortItemsForDisplay: "mset (sortItemsForDisplay its) = mset its"
proof -
  have "mset (sortItemsForDisplay its) =
      mset (filter (\<lambda>m. \<not> isReplyDraft m) its) + mset (filter isReplyDraft its)"
    by (simp add: sortItemsForDisplay_eq rethread_spec_def mset_foldl_insertAfterTarget)
  also have "\<dots> = mset its"
    by (simp add: union_commute)
  finally show ?thesis .
qed

lemma set_sortItemsForDisplay: "set (sortItemsForDisplay its) = set its"
  using mset_sortItemsForDisplay by (metis set_mset_mset)

lemma occurrences_sortItemsForDisplay:
  "occurrences i (sortItemsForDisplay its) = occurrences i its"
proof -
  have "mset (filter (\<lambda>m. msg_id m = i) (sortItemsForDisplay its)) = mset (filter (\<lambda>m. msg_id m = i) its)"
    by (simp add: mset_sortItemsForDisplay)
  then show ?thesis unfolding occurrences_def by (metis size_mset)
qed

subsection \<open>findIndex\<close>

lemma findIndex_ge: "- 1 \<le> findIndex P xs"
  by (induction xs) (auto simp: Let_def)

lemma findIndex_none: "(findIndex P xs = - 1) = (filter P xs = [])"
proof (induction xs)
  case Nil
  then show ?case by simp
next
  case (Cons x xs)
  have "findIndex P xs + 1 \<noteq> - 1" using findIndex_ge[of P xs] by simp
  with Cons show ?case by (auto simp: Let_def)
qed

lemma splice_out_findIndex:
  assumes "distinct (map msg_id xs)" and "findIndex (\<lambda>m. msg_id m = i) xs \<noteq> - 1"
  shows "splice_out (nat (findIndex (\<lambda>m. msg_id m = i) xs)) xs = filter (\<lambda>m. msg_id m \<noteq> i) xs"
  using assms
proof (induction xs)
  case Nil
  then show ?case by simp
next
  case (Cons x xs)
  show ?case
  proof (cases "msg_id x = i")
    case True
    then have "\<forall>m \<in> set xs. msg_id m \<noteq> i" using Cons.prems(1) by (auto simp: image_iff)
    then have "filter (\<lambda>m. msg_id m \<noteq> i) xs = xs" by (simp add: filter_id_conv)
    with True show ?thesis by (simp add: splice_out_def)
  next
    case False
    let ?j = "findIndex (\<lambda>m. msg_id m = i) xs"
    from False Cons.prems(2) have j: "?j \<noteq> - 1" by (auto simp: Let_def split: if_splits)
    then have j0: "0 \<le> ?j" using findIndex_ge[of "\<lambda>m. msg_id m = i" xs] by linarith
    have fi: "findIndex (\<lambda>m. msg_id m = i) (x # xs) = ?j + 1"
      using False j by (simp add: Let_def)
    have n: "nat (?j + 1) = Suc (nat ?j)" using j0 by simp
    have ih: "splice_out (nat ?j) xs = filter (\<lambda>m. msg_id m \<noteq> i) xs"
      using Cons.IH Cons.prems(1) j by simp
    show ?thesis
      unfolding fi n using False ih by (simp add: splice_out_def)
  qed
qed

subsection \<open>Notifications\<close>

lemma notifications_emit [simp]:
  "notifications (emit e s) = notifications s + (if e = Trigger then 1 else 0)"
  by (simp add: notifications_def)

lemma notifications_effects_append:
  "notifications (s\<lparr>effects := effects s @ es\<rparr>) = notifications s + length (filter (\<lambda>e. e = Trigger) es)"
  by (simp add: notifications_def)

lemma notifications_upd [simp]:
  "notifications (s\<lparr>p_items := a\<rparr>) = notifications s"
  "notifications (s\<lparr>p_itemsLoading := b\<rparr>) = notifications s"
  "notifications (s\<lparr>p_lastMarkedAsReadThreadId := c\<rparr>) = notifications s"
  "notifications (s\<lparr>p_thread := d\<rparr>) = notifications s"
  by (simp_all add: notifications_def)

lemma notifications_expandItemsToDefault [simp]:
  "notifications (expandItemsToDefault s) = notifications s"
  by (simp add: notifications_def)

lemma notifications_markAsRead [simp]: "notifications (markAsRead s) = notifications s"
  by (simp add: markAsRead_def Let_def split: option.splits)

lemma notifications_fetchMissingBodies [simp]:
  "notifications (fetchMissingBodies its s) = notifications s"
  by (simp add: fetchMissingBodies_def Let_def)

lemma attachmentRequests_no_trigger: "filter (\<lambda>e. e = Trigger) (attachmentRequests ex its) = []"
  by (induction its) (auto simp: attachmentRequests_def filter_empty_conv)

lemma notifications_fetchExpandedAttachments [simp]:
  "notifications (fetchExpandedAttachments its s) = notifications s"
  by (simp add: fetchExpandedAttachments_eq notifications_effects_append attachmentRequests_no_trigger)

lemma notifications_fetchFromCachePart2 [simp]:
  "notifications (fetchFromCachePart2 threads s) = notifications s"
  unfolding fetchFromCachePart2_def by (induction threads arbitrary: s) simp_all

lemma notifications_then:
  "notifications (snd (fetchFromCachePart2_then acc its s)) = notifications s + 1"
  by (simp add: fetchFromCachePart2_then_def Let_def trigger_def)

lemma notifications_resolveAll:
  "notifications (snd (resolveAll (acc0, s) results)) = notifications s + length results"
proof (induction results arbitrary: acc0 s)
  case Nil
  then show ?case by simp
next
  case (Cons r results)
  obtain a t where at: "fetchFromCachePart2_then acc0 r s = (a, t)"
    by (cases "fetchFromCachePart2_then acc0 r s")
  have "notifications t = notifications s + 1" using notifications_then[of acc0 r s] at by simp
  then show ?case using Cons[of a t] at by simp
qed

lemma fetchCycle_notifications:
  "notifications (fetchCycle threads results s) = notifications s + length results"
  by (simp add: fetchCycle_def notifications_resolveAll)

subsection \<open>Bodies\<close>

lemma withBody_eq:
  "withBody m =
     m\<lparr>body := (if truthy (body m) then body m
                else if truthy (snippet m) then Some (''SNIPPET: '' @ the (snippet m))
                else Some ''MESSAGE TOO OLD'')\<rparr>"
  by (simp add: withBody_def truthy_def split: option.splits)

lemma truthy_withBody: "truthy (body (withBody m))"
  by (simp add: withBody_def truthy_def split: option.splits)

lemma isHidden_withBody [simp]: "isHidden (withBody m) = isHidden m"
  by (simp add: withBody_def split: option.splits)

text \<open>The engine of the examples returns a permutation, whatever the comparator.\<close>

lemma mset_binaryInsertion:
  "mset (binaryInsertion cmp placed rest) = mset placed + mset rest"
proof (induction rest arbitrary: placed)
  case Nil
  then show ?case by simp
next
  case (Cons pivot rest)
  have "mset (take k placed @ pivot # drop k placed) = add_mset pivot (mset placed)" for k
    using append_take_drop_id[of k placed] by (metis mset_append add_mset_add_single mset.simps(2) union_mset_add_mset_right)
  then show ?case by (simp add: Cons.IH Let_def)
qed

lemma mset_timSortShort: "mset (timSortShort cmp a) = mset a"
proof -
  have "mset (take n xs) + mset (drop n xs) = mset xs" for n and xs :: "'a list"
    by (metis append_take_drop_id mset_append)
  then show ?thesis
    by (simp add: timSortShort_def Let_def mset_binaryInsertion split: list.splits)
qed

text \<open>No handler and no continuation changes the engine.\<close>

lemma fetchFromCachePart2_arraySort [simp]:
  "arraySort (fetchFromCachePart2 threads s) = arraySort s"
  unfolding fetchFromCachePart2_def by (induction threads arbitrary: s) simp_all

lemma then_arraySort [simp]:
  "arraySort (snd (fetchFromCachePart2_then acc its s)) = arraySort s"
  by (simp add: fetchFromCachePart2_then_def Let_def trigger_def fetchExpandedAttachments_eq
      fetchMissingBodies_eq)

lemma resolveAll_arraySort [simp]:
  "arraySort (snd (resolveAll (acc0, s) results)) = arraySort s"
proof (induction results arbitrary: acc0 s)
  case Nil
  then show ?case by simp
next
  case (Cons r results)
  obtain a t where at: "fetchFromCachePart2_then acc0 r s = (a, t)"
    by (cases "fetchFromCachePart2_then acc0 r s")
  then have "arraySort t = arraySort s" using then_arraySort[of acc0 r s] by simp
  then show ?case using Cons[of a t] at by simp
qed

lemma then_items:
  assumes "\<forall>xs. mset (arraySort s byDate xs) = mset xs"
  shows "set (p_items (snd (fetchFromCachePart2_then acc its s))) =
     {m \<in> set (acc @ map withBody its). \<not> isHidden m}"
proof -
  have "set (arraySort s byDate xs) = set xs" for xs
    using assms by (metis set_mset_mset)
  then show ?thesis
    by (auto simp: fetchFromCachePart2_then_def Let_def trigger_def fetchExpandedAttachments_eq
        fetchMissingBodies_eq set_sortItemsForDisplay)
qed

lemma then_fst: "fst (fetchFromCachePart2_then acc its s) = acc @ map withBody its"
  by (simp add: fetchFromCachePart2_then_def Let_def)

lemma resolveAll_fst:
  "fst (resolveAll (acc0, s) results) = acc0 @ map withBody (concat results)"
proof (induction results arbitrary: acc0 s)
  case Nil
  then show ?case by simp
next
  case (Cons r results)
  obtain a t where at: "fetchFromCachePart2_then acc0 r s = (a, t)"
    by (cases "fetchFromCachePart2_then acc0 r s")
  then have "a = acc0 @ map withBody r" using then_fst[of acc0 r s] by simp
  then show ?case using Cons[of a t] at by simp
qed

lemma resolveAll_snoc:
  "resolveAll (acc0, s) (rs @ [r]) =
     fetchFromCachePart2_then (fst (resolveAll (acc0, s) rs)) r (snd (resolveAll (acc0, s) rs))"
proof (induction rs arbitrary: acc0 s)
  case Nil
  then show ?case by (cases "fetchFromCachePart2_then acc0 r s") simp
next
  case (Cons x rs)
  obtain a t where at: "fetchFromCachePart2_then acc0 x s = (a, t)"
    by (cases "fetchFromCachePart2_then acc0 x s")
  then show ?case using Cons[of a t] by simp
qed

lemma resolveAll_items:
  assumes "results \<noteq> []" and "\<forall>xs. mset (arraySort s byDate xs) = mset xs"
  shows "set (p_items (snd (resolveAll (acc0, s) results))) =
     {m \<in> set (acc0 @ map withBody (concat results)). \<not> isHidden m}"
proof -
  from assms(1) obtain rs r where rr: "results = rs @ [r]" by (metis rev_exhaust)
  have e: "\<forall>xs. mset (arraySort (snd (resolveAll (acc0, s) rs)) byDate xs) = mset xs"
    using assms(2) by simp
  show ?thesis
    unfolding rr resolveAll_snoc then_items[OF e] resolveAll_fst by simp
qed

lemma fetchCycle_items:
  "results \<noteq> [] \<Longrightarrow> \<forall>xs. mset (arraySort s byDate xs) = mset xs \<Longrightarrow>
   set (p_items (fetchCycle threads results s)) = withBody ` {m \<in> set (concat results). \<not> isHidden m}"
  by (auto simp: fetchCycle_def resolveAll_items)

subsection \<open>Focus\<close>

lemma trigger_fields [simp]:
  "p_onFocusChangedTimer (trigger s) = p_onFocusChangedTimer s"
  "p_items (trigger s) = p_items s"
  "p_itemsExpanded (trigger s) = p_itemsExpanded s"
  "p_thread (trigger s) = p_thread s"
  "effects (trigger s) = effects s @ [Trigger]"
  by (simp_all add: trigger_def)

lemma setWindowTitle_fields [simp]:
  "p_onFocusChangedTimer (setWindowTitle s) = p_onFocusChangedTimer s"
  "p_items (setWindowTitle s) = p_items s"
  "p_itemsExpanded (setWindowTitle s) = p_itemsExpanded s"
  "p_thread (setWindowTitle s) = p_thread s"
  by (simp_all add: setWindowTitle_def)

lemma onApplyFocusChange_timer [simp]:
  "p_onFocusChangedTimer (onApplyFocusChange s) = p_onFocusChangedTimer s"
  by (simp add: onApplyFocusChange_def Let_def)

subsection \<open>One draft to put back\<close>

lemma insertAfterTarget_found:
  "list_all (\<lambda>m. replyToHeaderMessageId d \<noteq> Some (headerMessageId m)) pre \<Longrightarrow>
   replyToHeaderMessageId d = Some (headerMessageId t) \<Longrightarrow>
   insertAfterTarget d (pre @ t # post) = pre @ t # d # post"
  by (induction pre) simp_all

lemma insertAfterTarget_absent:
  "list_all (\<lambda>m. replyToHeaderMessageId d \<noteq> Some (headerMessageId m)) rest \<Longrightarrow>
   insertAfterTarget d rest = rest @ [d]"
  by (induction rest) simp_all

lemma rethread_spec_single:
  assumes "isReplyDraft d" and "list_all (\<lambda>m. \<not> isReplyDraft m) (xs @ ys)"
  shows "rethread_spec (xs @ d # ys) = insertAfterTarget d (xs @ ys)"
proof -
  have n: "filter isReplyDraft xs = []" "filter isReplyDraft ys = []"
    using assms(2) by (auto simp: filter_empty_conv list_all_iff)
  have k: "filter (\<lambda>m. \<not> isReplyDraft m) xs = xs" "filter (\<lambda>m. \<not> isReplyDraft m) ys = ys"
    using assms(2) by (auto simp: filter_id_conv list_all_iff)
  show ?thesis using assms(1) by (simp add: rethread_spec_def n k)
qed


subsection \<open>Where the entries of the expansion map come from, and counting ids\<close>

lemma dom_expand_upd:
  "dom (p_itemsExpanded (expandItemsToDefault (s\<lparr>p_items := xs\<rparr>)))
     \<subseteq> dom (p_itemsExpanded s) \<union> msg_id ` set xs"
  using dom_expandItemsToDefault[of "s\<lparr>p_items := xs\<rparr>"] by simp

lemma dom_expand_keeps:
  "dom (p_itemsExpanded s) \<subseteq> dom (p_itemsExpanded (expandItemsToDefault (s\<lparr>p_items := xs\<rparr>)))"
proof
  fix k assume "k \<in> dom (p_itemsExpanded s)"
  then have "p_itemsExpanded s k \<noteq> None" by auto
  then have "p_itemsExpanded (expandItemsToDefault (s\<lparr>p_items := xs\<rparr>)) k \<noteq> None"
    by (simp add: expandItemsToDefault_entry)
  then show "k \<in> dom (p_itemsExpanded (expandItemsToDefault (s\<lparr>p_items := xs\<rparr>)))" by auto
qed

lemma then_expanded:
  "p_itemsExpanded (snd (fetchFromCachePart2_then acc its s)) =
     p_itemsExpanded (expandItemsToDefault (s\<lparr>p_items := p_items (snd (fetchFromCachePart2_then acc its s))\<rparr>))"
  by (simp add: fetchFromCachePart2_then_def Let_def trigger_def fetchExpandedAttachments_eq
      fetchMissingBodies_eq)

lemma onDataChanged_expanded:
  "p_itemsExpanded (onDataChanged chg s) = p_itemsExpanded s \<or>
   p_itemsExpanded (onDataChanged chg s) =
     p_itemsExpanded (expandItemsToDefault (s\<lparr>p_items := p_items (onDataChanged chg s)\<rparr>))"
  by (simp add: onDataChanged_def Let_def trigger_def split: option.splits change.splits)

lemma occurrences_filter_le: "occurrences i (filter P xs) \<le> occurrences i xs"
  unfolding occurrences_def by (induction xs) auto

lemma occurrences_zero: "(occurrences i xs = 0) = (findIndex (\<lambda>m. msg_id m = i) xs = - 1)"
  by (simp add: occurrences_def findIndex_none)

lemma persist_once:
  "occurrences (msg_id item) (p_items s) \<le> 1 \<Longrightarrow>
   occurrences (msg_id item) (p_items (onDataChanged (MessageChange Persist [item]) s)) \<le> 1"
proof -
  assume le: "occurrences (msg_id item) (p_items s) \<le> 1"
  have new: "occurrences (msg_id item)
      (sortItemsForDisplay (filter (\<lambda>m. \<not> isHidden m) (p_items s @ [item]))) \<le> 1"
    if "findIndex (\<lambda>msg. msg_id msg = msg_id item) (p_items s) = - 1"
  proof -
    from that have z: "occurrences (msg_id item) (p_items s) = 0" by (simp add: occurrences_zero)
    have "occurrences (msg_id item) (filter (\<lambda>m. \<not> isHidden m) (p_items s @ [item]))
        \<le> occurrences (msg_id item) (p_items s @ [item])" by (rule occurrences_filter_le)
    also have "\<dots> = 1" using z by (simp add: occurrences_def)
    finally show ?thesis by (simp add: occurrences_sortItemsForDisplay)
  qed
  show ?thesis
    using le new by (auto simp: onDataChanged_def Let_def split: option.splits)
qed

subsection \<open>The list never holds a hidden message\<close>

lemma no_hidden_then:
  "\<forall>xs. mset (arraySort s byDate xs) = mset xs \<Longrightarrow>
   list_all (\<lambda>m. \<not> isHidden m) (p_items (snd (fetchFromCachePart2_then acc its s)))"
  using then_items[of s acc its] by (auto simp: list_all_iff)

lemma no_hidden_onApplyFocusChange:
  "list_all (\<lambda>m. \<not> isHidden m) (p_items s) \<Longrightarrow>
   list_all (\<lambda>m. \<not> isHidden m) (p_items (onApplyFocusChange s))"
  by (simp add: onApplyFocusChange_def Let_def)

lemma set_splice_out: "set (splice_out n xs) \<subseteq> set xs"
  unfolding splice_out_def using set_take_subset[of n xs] set_drop_subset[of "Suc n" xs] by auto

lemma no_hidden_onDataChanged:
  "list_all (\<lambda>m. \<not> isHidden m) (p_items s) \<Longrightarrow>
   list_all (\<lambda>m. \<not> isHidden m) (p_items (onDataChanged chg s))"
  using set_splice_out[of _ "filter (\<lambda>m. \<not> isHidden m) (p_items s)"]
  by (auto simp: onDataChanged_def Let_def list_all_iff set_sortItemsForDisplay
      split: option.splits change.splits)

section \<open>The claims\<close>

text \<open>
  C1. The claim: a fetch launched while thread A is focused discards its result when the
  focus has moved before its continuation runs. The continuations of this file carry no
  such check (the one the original \<open>_fetchFromCache\<close> had, "Check to make sure that our
  thread is still the thread we were loading items for", went with it into a comment).
  Here thread B is focused while the search launched for A is pending: when A's queries
  resolve, A's message is assigned to the list and the observers are notified, with B the
  current thread. The same happens when the focus was cleared.
\<close>

theorem stale_result_displayed:
  "p_thread refocusedB = Some threadB \<and> p_items refocusedB = []
   \<and> p_thread staleA = Some threadB \<and> p_items staleA = [msg1]
   \<and> threadId msg1 = thread_id threadA \<and> thread_id threadA \<noteq> thread_id threadB
   \<and> notifications staleA = notifications refocusedB + 1
   \<and> p_thread staleNull = None \<and> p_items staleNull = [msg1]"
  by code_simp

text \<open>
  C2. The claim: a fetch cycle notifies the observers once for the whole batch, never once
  per intermediate query. \<open>_fetchFromCachePart2\<close> launches one query per thread found and
  each continuation ends with \<open>trigger\<close> (lemma \<open>fetchCycle_notifications\<close>: as many
  notifications as queries resolved). With two threads found the observers are notified
  after the first query, with a list that holds the first thread's message only, and again
  after the second.
\<close>

theorem notified_once_per_query:
  "notifications loadedFirst = notifications focusedA + 1 \<and> p_items loadedFirst = [msg1]
   \<and> notifications loadedBoth = notifications focusedA + 2 \<and> p_items loadedBoth = [msg1, msgB1]"
  by code_simp

text \<open>
  C3. For every list, \<open>_sortItemsForDisplay\<close> computes what the specification describes:
  the drafts that carry a reply reference are taken out of the list, and each is put right
  after the first message, scanning forward, whose \<open>headerMessageId\<close> is its reference,
  or at the end when no message has it. So a list whose only such draft is \<open>d\<close> becomes the
  rest with \<open>d\<close> after its target (\<open>pre @ t # post\<close> becomes \<open>pre @ t # d # post\<close>), or
  with \<open>d\<close> last when the target is absent; and base order \<open>[M1, M2]\<close> with a draft in
  reply to \<open>M1\<close>, wherever it stands, gives \<open>[M1, d, M2]\<close>.
\<close>

theorem sortItemsForDisplay_rethreads:
  "sortItemsForDisplay its = rethread_spec its
   \<and> (isReplyDraft d \<and> list_all (\<lambda>m. \<not> isReplyDraft m) (xs @ ys) \<longrightarrow>
        (list_all (\<lambda>m. replyToHeaderMessageId d \<noteq> Some (headerMessageId m)) pre
           \<and> replyToHeaderMessageId d = Some (headerMessageId t) \<and> xs @ ys = pre @ t # post
         \<longrightarrow> sortItemsForDisplay (xs @ d # ys) = pre @ t # d # post)
      \<and> (list_all (\<lambda>m. replyToHeaderMessageId d \<noteq> Some (headerMessageId m)) (xs @ ys)
         \<longrightarrow> sortItemsForDisplay (xs @ d # ys) = xs @ ys @ [d])
      \<and> (replyToHeaderMessageId d = Some (headerMessageId M1) \<and> xs @ ys = [M1, M2]
         \<longrightarrow> sortItemsForDisplay (xs @ d # ys) = [M1, d, M2]))"
proof -
  have eq: "sortItemsForDisplay its = rethread_spec its"
    by (rule sortItemsForDisplay_eq)
  have single: "sortItemsForDisplay (xs @ d # ys) = insertAfterTarget d (xs @ ys)"
    if "isReplyDraft d" and "list_all (\<lambda>m. \<not> isReplyDraft m) (xs @ ys)"
    using that by (simp only: sortItemsForDisplay_eq rethread_spec_single)
  have found: "sortItemsForDisplay (xs @ d # ys) = pre @ t # d # post"
    if "isReplyDraft d" and "list_all (\<lambda>m. \<not> isReplyDraft m) (xs @ ys)"
      and "list_all (\<lambda>m. replyToHeaderMessageId d \<noteq> Some (headerMessageId m)) pre"
      and "replyToHeaderMessageId d = Some (headerMessageId t)" and "xs @ ys = pre @ t # post"
    using that single insertAfterTarget_found[of d pre t post] by simp
  have absent: "sortItemsForDisplay (xs @ d # ys) = xs @ ys @ [d]"
    if "isReplyDraft d" and "list_all (\<lambda>m. \<not> isReplyDraft m) (xs @ ys)"
      and "list_all (\<lambda>m. replyToHeaderMessageId d \<noteq> Some (headerMessageId m)) (xs @ ys)"
    using that single insertAfterTarget_absent[of d "xs @ ys"] by simp
  have example: "sortItemsForDisplay (xs @ d # ys) = [M1, d, M2]"
    if "isReplyDraft d" and "list_all (\<lambda>m. \<not> isReplyDraft m) (xs @ ys)"
      and "replyToHeaderMessageId d = Some (headerMessageId M1)" and "xs @ ys = [M1, M2]"
    using that single by simp
  show ?thesis using eq found absent example by blast
qed

text \<open>The example of the specification, on concrete messages.\<close>

theorem sortItemsForDisplay_rethreads_witness:
  "isReplyDraft reply1 \<and> list_all (\<lambda>m. \<not> isReplyDraft m) ([msg1, msg2] @ [])
   \<and> replyToHeaderMessageId reply1 = Some (headerMessageId msg1)
   \<and> sortItemsForDisplay ([msg1, msg2] @ reply1 # []) = [msg1, reply1, msg2]
   \<and> sortItemsForDisplay [reply1, msg1, msg2] = rethread_spec [reply1, msg1, msg2]"
proof -
  have a: "isReplyDraft reply1" by code_simp
  have b: "list_all (\<lambda>m. \<not> isReplyDraft m) ([msg1, msg2] @ [])" by code_simp
  have c: "replyToHeaderMessageId reply1 = Some (headerMessageId msg1)" by code_simp
  from sortItemsForDisplay_rethreads[of "[reply1, msg1, msg2]" reply1 "[msg1, msg2]" "[]" "[]" msg1 "[msg2]" msg1 msg2]
    a b c
  show ?thesis by simp
qed

text \<open>
  C4, as stated, fails when the burst starts with no timer pending: the first change is
  applied at once (the leading edge of the debounce), so thread A is applied and its fetch
  launched, and thread C is applied when the timer fires: two transitions, not one. And
  when the three changes B, C, A follow a first change to A, the timer applies A, which is
  the current thread already: no transition at all.
\<close>

theorem burst_applies_first_and_last:
  "p_thread (focusEvent 0 (Some threadA) (newStore ''inbox'' 500)) = Some threadA
   \<and> effects (focusEvent 0 (Some threadA) (newStore ''inbox'' 500)) =
       [Trigger, SetTitle (''Mailspring '' @ [CHR 0xC2, CHR 0xB7] @ '' A''), Run FindCalendars]
   \<and> p_thread (advance 200 burst) = Some threadC
   \<and> effects (advance 200 burst) =
       [Trigger, SetTitle (''Mailspring '' @ [CHR 0xC2, CHR 0xB7] @ '' A''), Run FindCalendars,
        Trigger, SetTitle (''Mailspring '' @ [CHR 0xC2, CHR 0xB7] @ '' C''), Run FindCalendars]
   \<and> notifications (advance 200 burst) = 2
   \<and> p_thread (advance 250 burstBack) = Some threadA
   \<and> effects (advance 250 burstBack) =
       effects (focusEvent 0 (Some threadA) (newStore ''inbox'' 500))"
  by code_simp

text \<open>
  C4, amended. Three focus changes, each less than 100 ms after the one before, and then
  the timer firing 100 ms after the last: when no timer is pending as the first arrives,
  the store ends as if the first target had been applied and then the last; when a timer is
  pending (and not yet due) as the first arrives, as if only the last target had been
  applied. The target of the second change is applied in neither case, and nothing is
  fetched for it.
\<close>

theorem focus_burst:
  assumes "t1 \<le> t2" and "t2 < t1 + 100" and "t2 \<le> t3" and "t3 < t2 + 100"
  shows "(p_onFocusChangedTimer s = None \<longrightarrow>
        advance (t3 + 100) (focusEvent t3 f3 (focusEvent t2 f2 (focusEvent t1 f1 s))) =
          onApplyFocusChange ((onApplyFocusChange (s\<lparr>focused := f1\<rparr>))\<lparr>focused := f3\<rparr>))
    \<and> ((\<exists>due. p_onFocusChangedTimer s = Some due \<and> t1 < due) \<longrightarrow>
        advance (t3 + 100) (focusEvent t3 f3 (focusEvent t2 f2 (focusEvent t1 f1 s))) =
          onApplyFocusChange (s\<lparr>focused := f3, p_onFocusChangedTimer := None\<rparr>))"
proof -
  have idle: "advance (t3 + 100) (focusEvent t3 f3 (focusEvent t2 f2 (focusEvent t1 f1 s))) =
          onApplyFocusChange ((onApplyFocusChange (s\<lparr>focused := f1\<rparr>))\<lparr>focused := f3\<rparr>)"
    if n: "p_onFocusChangedTimer s = None"
  proof -
    let ?a = "onApplyFocusChange (s\<lparr>focused := f1\<rparr>)"
    have ta: "p_onFocusChangedTimer ?a = None" using n by simp
    have e1: "focusEvent t1 f1 s = ?a\<lparr>p_onFocusChangedTimer := Some (t1 + 100)\<rparr>"
      using n by (simp add: focusEvent_def advance_def onFocusChanged_def)
    have e2: "focusEvent t2 f2 (focusEvent t1 f1 s) =
        ?a\<lparr>focused := f2, p_onFocusChangedTimer := Some (t2 + 100)\<rparr>"
      unfolding e1 using assms(2) by (simp add: focusEvent_def advance_def onFocusChanged_def)
    have e3: "focusEvent t3 f3 (focusEvent t2 f2 (focusEvent t1 f1 s)) =
        ?a\<lparr>focused := f3, p_onFocusChangedTimer := Some (t3 + 100)\<rparr>"
      unfolding e2 using assms(4) by (simp add: focusEvent_def advance_def onFocusChanged_def)
    have same: "?a\<lparr>focused := f3, p_onFocusChangedTimer := None\<rparr> = ?a\<lparr>focused := f3\<rparr>"
      using ta by simp
    show ?thesis
      unfolding e3 by (simp add: advance_def focusTimerFired_def same)
  qed
  have pending: "advance (t3 + 100) (focusEvent t3 f3 (focusEvent t2 f2 (focusEvent t1 f1 s))) =
          onApplyFocusChange (s\<lparr>focused := f3, p_onFocusChangedTimer := None\<rparr>)"
    if d: "p_onFocusChangedTimer s = Some due" "t1 < due" for due
  proof -
    have e1: "focusEvent t1 f1 s = s\<lparr>focused := f1, p_onFocusChangedTimer := Some (t1 + 100)\<rparr>"
      using d by (simp add: focusEvent_def advance_def onFocusChanged_def)
    have e2: "focusEvent t2 f2 (focusEvent t1 f1 s) =
        s\<lparr>focused := f2, p_onFocusChangedTimer := Some (t2 + 100)\<rparr>"
      unfolding e1 using assms(2) by (simp add: focusEvent_def advance_def onFocusChanged_def)
    have e3: "focusEvent t3 f3 (focusEvent t2 f2 (focusEvent t1 f1 s)) =
        s\<lparr>focused := f3, p_onFocusChangedTimer := Some (t3 + 100)\<rparr>"
      unfolding e2 using assms(4) by (simp add: focusEvent_def advance_def onFocusChanged_def)
    show ?thesis
      unfolding e3 by (simp add: advance_def focusTimerFired_def)
  qed
  from idle pending show ?thesis by blast
qed

text \<open>The burst A, B, C in a fresh store: A is applied, then C.\<close>

theorem focus_burst_witness:
  "(0::nat) \<le> 50 \<and> (50::nat) < 0 + 100 \<and> (50::nat) \<le> 100 \<and> (100::nat) < 50 + 100
   \<and> p_onFocusChangedTimer (newStore ''inbox'' 500) = None
   \<and> advance (100 + 100) burst =
       onApplyFocusChange
         ((onApplyFocusChange ((newStore ''inbox'' 500)\<lparr>focused := Some threadA\<rparr>))
            \<lparr>focused := Some threadC\<rparr>)
   \<and> p_thread (advance (100 + 100) burst) = Some threadC"
proof -
  have n: "p_onFocusChangedTimer (newStore ''inbox'' 500) = None" by code_simp
  have c: "p_thread (onApplyFocusChange
         ((onApplyFocusChange ((newStore ''inbox'' 500)\<lparr>focused := Some threadA\<rparr>))
            \<lparr>focused := Some threadC\<rparr>)) = Some threadC" by code_simp
  from focus_burst[of 0 50 100 "newStore ''inbox'' 500" "Some threadC" "Some threadB" "Some threadA"] n c
  show ?thesis by (simp add: burst_def)
qed

text \<open>
  C5, as stated, fails: the recomputation only adds entries. Thread A is loaded with one
  read message, which is last and so marked; then a draft is persisted. After the
  recomputation of the fast path the first message is still marked \<open>default\<close>, though
  it is read, not a draft and no longer last.
\<close>

theorem expandItemsToDefault_keeps_old_marks:
  "items loaded1_persisted = [msg1, draftX]
   \<and> p_itemsExpanded loaded1_persisted (msg_id msg1) = Some Default
   \<and> \<not> defaultExpanded (items loaded1_persisted) 0"
  by code_simp

text \<open>
  C5, amended. After \<open>_expandItemsToDefault\<close>, with distinct ids in the visible list, a
  visible message that is unread, or the last draft, or the last message in visible order
  is marked \<open>default\<close>; every other visible message keeps the entry it had. So a visible
  message that had no entry is marked exactly when it meets the rule.
\<close>

theorem expandItemsToDefault_marks:
  assumes "distinct (map msg_id (items s))" and "i < length (items s)"
  shows "p_itemsExpanded (expandItemsToDefault s) (msg_id (items s ! i)) =
       (if defaultExpanded (items s) i then Some Default
        else p_itemsExpanded s (msg_id (items s ! i)))
    \<and> (p_itemsExpanded s (msg_id (items s ! i)) = None \<longrightarrow>
         (p_itemsExpanded (expandItemsToDefault s) (msg_id (items s ! i)) = Some Default)
           = defaultExpanded (items s) i)"
proof -
  have "\<And>j. j < length (items s) \<Longrightarrow> msg_id (items s ! j) = msg_id (items s ! i) \<Longrightarrow> j = i"
    using assms by (metis distinct_conv_nth length_map nth_map)
  then have "(\<exists>j < length (items s). defaultExpanded (items s) j \<and> msg_id (items s ! j) = msg_id (items s ! i))
      = defaultExpanded (items s) i"
    using assms(2) by blast
  then have "p_itemsExpanded (expandItemsToDefault s) (msg_id (items s ! i)) =
       (if defaultExpanded (items s) i then Some Default
        else p_itemsExpanded s (msg_id (items s ! i)))"
    by (simp only: expandItemsToDefault_entry)
  then show ?thesis by simp
qed

text \<open>
  The example of the specification: visible list [U, R, L] and an empty map give U and L
  marked \<open>default\<close> and R absent.
\<close>

theorem expandItemsToDefault_marks_witness:
  "distinct (map msg_id (items storeURL)) \<and> items storeURL = [unread0, msg1, msg2]
   \<and> unread unread0 \<and> \<not> unread msg1 \<and> \<not> unread msg2
   \<and> p_itemsExpanded (expandItemsToDefault storeURL) (msg_id unread0) = Some Default
   \<and> p_itemsExpanded (expandItemsToDefault storeURL) (msg_id msg1) = None
   \<and> p_itemsExpanded (expandItemsToDefault storeURL) (msg_id msg2) = Some Default"
proof -
  have d: "distinct (map msg_id (items storeURL))" by code_simp
  have i: "items storeURL = [unread0, msg1, msg2]" by code_simp
  have u: "unread unread0 \<and> \<not> unread msg1 \<and> \<not> unread msg2" by code_simp
  have e: "defaultExpanded (items storeURL) 0 \<and> \<not> defaultExpanded (items storeURL) 1
     \<and> defaultExpanded (items storeURL) 2" by code_simp
  have n: "p_itemsExpanded storeURL (msg_id msg1) = None" by code_simp
  have l: "(0::nat) < length (items storeURL)" "(1::nat) < length (items storeURL)"
    "(2::nat) < length (items storeURL)" by (simp_all add: i)
  from expandItemsToDefault_marks[OF d l(1)] expandItemsToDefault_marks[OF d l(2)]
    expandItemsToDefault_marks[OF d l(3)] d u e n
  show ?thesis by (simp add: i)
qed

text \<open>
  C6, as stated, fails: nothing removes the entry of a message that leaves the list.
  Thread A is loaded with a message and a draft, and the draft, being last, is marked;
  after its unpersist notification the draft is gone from the list and still in the map.
\<close>

theorem unpersist_keeps_stale_entry:
  "p_items loaded2 = [msg1, draftX] \<and> p_items loaded2_unpersisted = [msg1]
   \<and> p_itemsExpanded loaded2_unpersisted (msg_id draftX) = Some Default
   \<and> msg_id draftX \<notin> msg_id ` set (p_items loaded2_unpersisted)"
  by code_simp

text \<open>
  C6, amended. A focus transition leaves the list and the expansion map both empty. A fetch
  continuation, a database change (the fast paths among them) and the recomputation of the
  defaults keep every entry of the map and add entries only for messages of the resulting
  list: every id that was in the map before is in it afterwards, also the id of a message
  that has left the list, and every id in the map afterwards is the id of a message of the
  current list or was in the map before.
\<close>

theorem expansion_entries_bounded:
  "(threadId_of s \<noteq> map_option thread_id (focused s) \<longrightarrow>
      p_itemsExpanded (onApplyFocusChange s) = Map.empty \<and> p_items (onApplyFocusChange s) = [])
   \<and> dom (p_itemsExpanded s) \<subseteq> dom (p_itemsExpanded (snd (fetchFromCachePart2_then acc its s)))
   \<and> dom (p_itemsExpanded (snd (fetchFromCachePart2_then acc its s)))
        \<subseteq> dom (p_itemsExpanded s) \<union> msg_id ` set (p_items (snd (fetchFromCachePart2_then acc its s)))
   \<and> dom (p_itemsExpanded s) \<subseteq> dom (p_itemsExpanded (onDataChanged chg s))
   \<and> dom (p_itemsExpanded (onDataChanged chg s))
        \<subseteq> dom (p_itemsExpanded s) \<union> msg_id ` set (p_items (onDataChanged chg s))
   \<and> dom (p_itemsExpanded s) \<subseteq> dom (p_itemsExpanded (expandItemsToDefault s))
   \<and> dom (p_itemsExpanded (expandItemsToDefault s))
        \<subseteq> dom (p_itemsExpanded s) \<union> msg_id ` set (p_items (expandItemsToDefault s))"
proof -
  have a: "threadId_of s \<noteq> map_option thread_id (focused s) \<longrightarrow>
      p_itemsExpanded (onApplyFocusChange s) = Map.empty \<and> p_items (onApplyFocusChange s) = []"
    by (simp add: onApplyFocusChange_def Let_def threadId_of_def)
  have b: "dom (p_itemsExpanded (snd (fetchFromCachePart2_then acc its s)))
        \<subseteq> dom (p_itemsExpanded s) \<union> msg_id ` set (p_items (snd (fetchFromCachePart2_then acc its s)))"
    by (subst then_expanded) (rule dom_expand_upd)
  have b': "dom (p_itemsExpanded s) \<subseteq> dom (p_itemsExpanded (snd (fetchFromCachePart2_then acc its s)))"
    by (subst then_expanded) (rule dom_expand_keeps)
  have c: "dom (p_itemsExpanded (onDataChanged chg s))
        \<subseteq> dom (p_itemsExpanded s) \<union> msg_id ` set (p_items (onDataChanged chg s))"
    using onDataChanged_expanded[of chg s]
  proof
    assume "p_itemsExpanded (onDataChanged chg s) = p_itemsExpanded s"
    then show ?thesis by auto
  next
    assume e: "p_itemsExpanded (onDataChanged chg s) =
      p_itemsExpanded (expandItemsToDefault (s\<lparr>p_items := p_items (onDataChanged chg s)\<rparr>))"
    show ?thesis by (subst e) (rule dom_expand_upd)
  qed
  have c': "dom (p_itemsExpanded s) \<subseteq> dom (p_itemsExpanded (onDataChanged chg s))"
    using onDataChanged_expanded[of chg s]
  proof
    assume "p_itemsExpanded (onDataChanged chg s) = p_itemsExpanded s"
    then show ?thesis by auto
  next
    assume e: "p_itemsExpanded (onDataChanged chg s) =
      p_itemsExpanded (expandItemsToDefault (s\<lparr>p_items := p_items (onDataChanged chg s)\<rparr>))"
    show ?thesis by (subst e) (rule dom_expand_keeps)
  qed
  have d: "dom (p_itemsExpanded (expandItemsToDefault s))
        \<subseteq> dom (p_itemsExpanded s) \<union> msg_id ` set (p_items (expandItemsToDefault s))"
    using dom_expandItemsToDefault[of s] by simp
  have d': "dom (p_itemsExpanded s) \<subseteq> dom (p_itemsExpanded (expandItemsToDefault s))"
    using dom_expand_keeps[of s "p_items s"] by simp
  from a b b' c c' d d' show ?thesis by blast
qed

text \<open>
  Thread A loaded, then thread B focused: the transition empties list and map. And the
  unpersist notification of the example above keeps the entries thread A had.
\<close>

theorem expansion_entries_bounded_witness:
  "threadId_of (loaded2\<lparr>focused := Some threadB\<rparr>)
     \<noteq> map_option thread_id (focused (loaded2\<lparr>focused := Some threadB\<rparr>))
   \<and> p_itemsExpanded (onApplyFocusChange (loaded2\<lparr>focused := Some threadB\<rparr>)) = Map.empty
   \<and> p_items (onApplyFocusChange (loaded2\<lparr>focused := Some threadB\<rparr>)) = []
   \<and> dom (p_itemsExpanded loaded2) \<subseteq> dom (p_itemsExpanded loaded2_unpersisted)
   \<and> p_itemsExpanded loaded2 (msg_id draftX) = Some Default"
proof -
  have h: "threadId_of (loaded2\<lparr>focused := Some threadB\<rparr>)
     \<noteq> map_option thread_id (focused (loaded2\<lparr>focused := Some threadB\<rparr>))"
    by code_simp
  have v: "p_itemsExpanded loaded2 (msg_id draftX) = Some Default" by code_simp
  have k: "dom (p_itemsExpanded loaded2) \<subseteq> dom (p_itemsExpanded loaded2_unpersisted)"
    unfolding loaded2_unpersisted_def
    using expansion_entries_bounded[of loaded2 "[]" "[]" "MessageChange Unpersist [draftX]"]
    by blast
  from expansion_entries_bounded[of "loaded2\<lparr>focused := Some threadB\<rparr>"] h v k
  show ?thesis by blast
qed

text \<open>
  C7, as stated, fails in one point: the unpersist fast path does not sort again. Thread A
  is loaded with two messages, a draft in reply to the first and a second draft; the fetch
  leaves them in date order. When the second draft is unpersisted the rest keeps that
  order, where \<open>_sortItemsForDisplay\<close> would have moved the reply draft behind its target.
\<close>

theorem unpersist_does_not_resort:
  "p_items (onDataChanged (MessageChange Unpersist [draftX]) loaded4) = [msg1, msg2, reply1]
   \<and> sortItemsForDisplay
        (filter (\<lambda>m. msg_id m \<noteq> msg_id draftX) (filter (\<lambda>m. \<not> isHidden m) (p_items loaded4)))
      = [msg1, reply1, msg2]
   \<and> [msg1, msg2, reply1] \<noteq> [msg1, reply1, msg2]"
  by code_simp

text \<open>
  C7, amended. An unpersist notification for a single draft of the focused thread that is
  in the list removes exactly the message with that id and keeps the others in their
  order, recomputes the expansion defaults and notifies the observers once; it does not
  sort. The list is taken to have distinct ids and to hold no hidden message; the second
  holds of every list the store builds (lemmas \<open>no_hidden_then\<close>, for an engine whose
  sort returns a permutation, and \<open>no_hidden_onDataChanged\<close>), so that the hidden
  filter the path applies changes nothing.
\<close>

theorem unpersist_fast_path:
  assumes "p_thread s = Some t" and "threadId item = thread_id t" and "draft item"
    and "msg_id item \<in> msg_id ` set (p_items s)"
    and "distinct (map msg_id (p_items s))"
    and "list_all (\<lambda>m. \<not> isHidden m) (p_items s)"
  shows "onDataChanged (MessageChange Unpersist [item]) s =
       trigger (expandItemsToDefault
         (s\<lparr>p_items := filter (\<lambda>m. msg_id m \<noteq> msg_id item) (p_items s)\<rparr>))
    \<and> p_items (onDataChanged (MessageChange Unpersist [item]) s) =
       filter (\<lambda>m. msg_id m \<noteq> msg_id item) (p_items s)
    \<and> effects (onDataChanged (MessageChange Unpersist [item]) s) = effects s @ [Trigger]"
proof -
  let ?P = "\<lambda>m. msg_id m = msg_id item"
  have nohid: "filter (\<lambda>m. \<not> isHidden m) (p_items s) = p_items s"
    using assms(6) by (simp add: filter_id_conv list_all_iff)
  have "filter ?P (p_items s) \<noteq> []"
    using assms(4) by (auto simp: filter_empty_conv)
  then have idx: "findIndex ?P (p_items s) \<noteq> - 1" by (simp add: findIndex_none)
  have rm: "splice_out (nat (findIndex ?P (p_items s))) (p_items s) =
      filter (\<lambda>m. msg_id m \<noteq> msg_id item) (p_items s)"
    using splice_out_findIndex[OF assms(5) idx] .
  have main: "onDataChanged (MessageChange Unpersist [item]) s =
       trigger (expandItemsToDefault
         (s\<lparr>p_items := filter (\<lambda>m. msg_id m \<noteq> msg_id item) (p_items s)\<rparr>))"
    using assms(1,2,3) idx by (simp add: onDataChanged_def Let_def nohid rm)
  show ?thesis unfolding main by simp
qed

text \<open>The second draft of the loaded thread A is unpersisted.\<close>

theorem unpersist_fast_path_witness:
  "p_thread loaded4 = Some threadA \<and> threadId draftX = thread_id threadA \<and> draft draftX
   \<and> msg_id draftX \<in> msg_id ` set (p_items loaded4)
   \<and> distinct (map msg_id (p_items loaded4))
   \<and> list_all (\<lambda>m. \<not> isHidden m) (p_items loaded4)
   \<and> p_items loaded4 = [msg1, msg2, reply1, draftX]
   \<and> p_items (onDataChanged (MessageChange Unpersist [draftX]) loaded4) = [msg1, msg2, reply1]
   \<and> effects (onDataChanged (MessageChange Unpersist [draftX]) loaded4) = effects loaded4 @ [Trigger]"
proof -
  have h1: "p_thread loaded4 = Some threadA" by code_simp
  have h2: "threadId draftX = thread_id threadA" by code_simp
  have h3: "draft draftX" by code_simp
  have h4: "msg_id draftX \<in> msg_id ` set (p_items loaded4)" by code_simp
  have h5: "distinct (map msg_id (p_items loaded4))" by code_simp
  have h6: "list_all (\<lambda>m. \<not> isHidden m) (p_items loaded4)" by code_simp
  have v: "p_items loaded4 = [msg1, msg2, reply1, draftX]" by code_simp
  have f: "filter (\<lambda>m. msg_id m \<noteq> msg_id draftX) [msg1, msg2, reply1, draftX] = [msg1, msg2, reply1]"
    by code_simp
  from unpersist_fast_path[OF h1 h2 h3 h4 h5 h6] h1 h2 h3 h4 h5 h6 v f
  show ?thesis by simp
qed

text \<open>
  C8. The same single-object persist notification applied twice: if the message's id
  occurred at most once in the list before, it occurs at most once after both; and for a
  draft of the focused thread that is not hidden and was not in the list, exactly once
  (the first application appends it, the second finds it and starts a fetch instead).
\<close>

theorem persist_twice_no_duplicate:
  "(occurrences (msg_id item) (p_items s) \<le> 1 \<longrightarrow>
      occurrences (msg_id item)
        (p_items (onDataChanged (MessageChange Persist [item])
           (onDataChanged (MessageChange Persist [item]) s))) \<le> 1)
   \<and> (p_thread s = Some t \<and> threadId item = thread_id t \<and> draft item \<and> \<not> isHidden item
       \<and> occurrences (msg_id item) (p_items s) = 0 \<longrightarrow>
      occurrences (msg_id item)
        (p_items (onDataChanged (MessageChange Persist [item])
           (onDataChanged (MessageChange Persist [item]) s))) = 1)"
proof -
  let ?c = "MessageChange Persist [item]"
  have a: "occurrences (msg_id item) (p_items (onDataChanged ?c (onDataChanged ?c s))) \<le> 1"
    if "occurrences (msg_id item) (p_items s) \<le> 1"
    using that by (intro persist_once)
  have b: "occurrences (msg_id item) (p_items (onDataChanged ?c (onDataChanged ?c s))) = 1"
    if h: "p_thread s = Some t" "threadId item = thread_id t" "draft item" "\<not> isHidden item"
      "occurrences (msg_id item) (p_items s) = 0"
  proof -
    let ?xs = "sortItemsForDisplay (filter (\<lambda>m. \<not> isHidden m) (p_items s @ [item]))"
    have i0: "findIndex (\<lambda>msg. msg_id msg = msg_id item) (p_items s) = - 1"
      using h(5) by (simp add: occurrences_zero)
    have first: "onDataChanged ?c s = trigger (expandItemsToDefault (s\<lparr>p_items := ?xs\<rparr>))"
      using h(1,2,3) i0 by (simp add: onDataChanged_def Let_def)
    have "occurrences (msg_id item) (filter (\<lambda>m. \<not> isHidden m) (p_items s @ [item]))
        = occurrences (msg_id item) (filter (\<lambda>m. \<not> isHidden m) (p_items s)) + 1"
      using h(4) by (simp add: occurrences_def)
    moreover have "occurrences (msg_id item) (filter (\<lambda>m. \<not> isHidden m) (p_items s)) = 0"
      using occurrences_filter_le[of "msg_id item" "\<lambda>m. \<not> isHidden m" "p_items s"] h(5) by simp
    ultimately have one: "occurrences (msg_id item) ?xs = 1"
      by (simp add: occurrences_sortItemsForDisplay)
    then have i1: "findIndex (\<lambda>msg. msg_id msg = msg_id item) ?xs \<noteq> - 1"
      using occurrences_zero[of "msg_id item" ?xs] by simp
    have second: "p_items (onDataChanged ?c (onDataChanged ?c s)) = ?xs"
      unfolding first using h(1,2,3) i1 by (simp add: onDataChanged_def Let_def)
    show ?thesis unfolding second by (rule one)
  qed
  from a b show ?thesis by blast
qed

text \<open>A draft persisted twice into the loaded thread A.\<close>

theorem persist_twice_no_duplicate_witness:
  "occurrences (msg_id draftX) (p_items loaded1) \<le> 1
   \<and> p_thread loaded1 = Some threadA \<and> threadId draftX = thread_id threadA \<and> draft draftX
   \<and> \<not> isHidden draftX \<and> occurrences (msg_id draftX) (p_items loaded1) = 0
   \<and> occurrences (msg_id draftX)
        (p_items (onDataChanged (MessageChange Persist [draftX])
           (onDataChanged (MessageChange Persist [draftX]) loaded1))) = 1"
proof -
  have h: "p_thread loaded1 = Some threadA \<and> threadId draftX = thread_id threadA \<and> draft draftX
     \<and> \<not> isHidden draftX \<and> occurrences (msg_id draftX) (p_items loaded1) = 0"
    by code_simp
  from persist_twice_no_duplicate[of draftX loaded1 threadA] h
  show ?thesis by simp
qed

text \<open>
  C9, as stated, fails in one point: the placeholder made from a snippet is not the snippet
  text but the snippet behind the label \<open>SNIPPET:\<close>. A message with no body and the
  snippet \<open>hello\<close> is delivered; in the list its body is \<open>SNIPPET: hello\<close>.
\<close>

theorem placeholder_is_labelled_snippet:
  "body bare2 = None \<and> snippet bare2 = Some ''hello''
   \<and> map body (p_items (fetchCycle [threadA] [[bare2]] focusedA)) = [Some ''SNIPPET: hello'']
   \<and> Some ''SNIPPET: hello'' \<noteq> snippet bare2"
  by code_simp

text \<open>
  C9, amended. After a fetch cycle in which at least one message query has resolved (the
  engine's sort returning a permutation), the list is made of the delivered messages that
  are not hidden, each with its own body when it has one and otherwise with a placeholder:
  \<open>SNIPPET:\<close> followed by the snippet when it has a snippet, the fixed string
  \<open>MESSAGE TOO OLD\<close> when it has none. So no message of the list has a null, or empty,
  body.
\<close>

theorem fetched_bodies_never_null:
  assumes "results \<noteq> []" and "\<forall>xs. mset (arraySort s byDate xs) = mset xs"
  shows "set (p_items (fetchCycle threads results s)) =
        (\<lambda>m. m\<lparr>body := (if truthy (body m) then body m
                         else if truthy (snippet m) then Some (''SNIPPET: '' @ the (snippet m))
                         else Some ''MESSAGE TOO OLD'')\<rparr>)
          ` {m \<in> set (concat results). \<not> isHidden m}
    \<and> (\<forall>m \<in> set (p_items (fetchCycle threads results s)). truthy (body m))"
proof -
  have w: "withBody = (\<lambda>m. m\<lparr>body := (if truthy (body m) then body m
                         else if truthy (snippet m) then Some (''SNIPPET: '' @ the (snippet m))
                         else Some ''MESSAGE TOO OLD'')\<rparr>)"
    by (rule ext) (rule withBody_eq)
  have a: "set (p_items (fetchCycle threads results s)) =
        withBody ` {m \<in> set (concat results). \<not> isHidden m}"
    using assms by (rule fetchCycle_items)
  have c: "\<forall>m \<in> set (p_items (fetchCycle threads results s)). truthy (body m)"
    unfolding a using truthy_withBody by blast
  from a c show ?thesis unfolding w by blast
qed

text \<open>
  Two messages without body, one of them with a snippet, and one with a body, all with
  different dates.
\<close>

theorem fetched_bodies_never_null_witness:
  "[[bare1, bare2, msg1]] \<noteq> []
   \<and> (\<forall>xs. mset (arraySort focusedA byDate xs) = mset xs)
   \<and> map body [bare1, bare2, msg1] = [None, None, Some ''text'']
   \<and> map snippet [bare1, bare2, msg1] = [None, Some ''hello'', None]
   \<and> p_items (fetchCycle [threadA] [[bare1, bare2, msg1]] focusedA) =
       [msg1, bare1\<lparr>body := Some ''MESSAGE TOO OLD''\<rparr>, bare2\<lparr>body := Some ''SNIPPET: hello''\<rparr>]
   \<and> list_all (\<lambda>m. truthy (body m)) (p_items (fetchCycle [threadA] [[bare1, bare2, msg1]] focusedA))"
proof -
  have n: "[[bare1, bare2, msg1]] \<noteq> []" by simp
  have e: "arraySort focusedA = timSortShort"
    by (simp add: focusedA_def focusEvent_def advance_def newStore_def onFocusChanged_def
        onApplyFocusChange_def threadId_of_def trigger_def emit_def setWindowTitle_def
        fetchFromCache_def fetchFromCache_then_def fetchThreads_def threadA_def mkThread_def Let_def)
  have p: "\<forall>xs. mset (arraySort focusedA byDate xs) = mset xs"
    by (simp add: e mset_timSortShort)
  have v: "map body [bare1, bare2, msg1] = [None, None, Some ''text'']
     \<and> map snippet [bare1, bare2, msg1] = [None, Some ''hello'', None]
     \<and> p_items (fetchCycle [threadA] [[bare1, bare2, msg1]] focusedA) =
       [msg1, bare1\<lparr>body := Some ''MESSAGE TOO OLD''\<rparr>, bare2\<lparr>body := Some ''SNIPPET: hello''\<rparr>]"
    by code_simp
  have "\<forall>m \<in> set (p_items (fetchCycle [threadA] [[bare1, bare2, msg1]] focusedA)). truthy (body m)"
    using fetched_bodies_never_null[OF n p, of "[threadA]"] by (rule conjunct2)
  then have a: "list_all (\<lambda>m. truthy (body m)) (p_items (fetchCycle [threadA] [[bare1, bare2, msg1]] focusedA))"
    by (simp only: list_all_iff)
  from n p v a show ?thesis by blast
qed

text \<open>
  C10. While the show-hidden toggle is on, \<open>items()\<close> is the whole cached list and
  \<open>numberOfHiddenItems()\<close> is 0.
\<close>

theorem showing_hidden_items:
  assumes "p_showingHiddenItems s"
  shows "items s = p_items s \<and> numberOfHiddenItems s = 0"
  using assms by (simp add: items_def numberOfHiddenItems_def)

text \<open>A list with a spam message: shown and not counted with the toggle on.\<close>

theorem showing_hidden_items_witness:
  "p_showingHiddenItems (storeSpam True)
   \<and> items (storeSpam True) = [msg1, spam1] \<and> numberOfHiddenItems (storeSpam True) = 0
   \<and> items (storeSpam False) = [msg1] \<and> numberOfHiddenItems (storeSpam False) = 1"
proof -
  have h: "p_showingHiddenItems (storeSpam True)" by code_simp
  have v: "p_items (storeSpam True) = [msg1, spam1]
     \<and> items (storeSpam False) = [msg1] \<and> numberOfHiddenItems (storeSpam False) = 1" by code_simp
  from showing_hidden_items[OF h] h v show ?thesis by simp
qed

end
